theory Spec2Isabelle
  imports Main "HOL-Library.Extended_Nat" "HOL-Library.Product_Lexorder" "HOL-Library.Multiset"
begin

section \<open>The node model (src/types.ts)\<close>

text \<open>
  Nodes are mutable objects that the grid, the open set and the predecessor links all
  refer to. A reference is an address; the heap gives the object at each address. Scores
  are JavaScript numbers that the program only ever sets to natural numbers or to
  \<open>Infinity\<close>: they are extended naturals. Rows and columns are 0-indexed positions.
\<close>

type_synonym addr = nat

record NodeType =
  row :: nat
  col :: nat
  isStart :: bool
  isFinish :: bool
  distance :: enat
  isVisited :: bool
  isWall :: bool
  previousNode :: "addr option"
  fScore :: enat
  gScore :: enat
  hScore :: enat

type_synonym heap = "addr \<Rightarrow> NodeType"
type_synonym GridType = "addr list list"

datatype step_type = visited | opened | path

record AlgoStep =
  nodes :: "addr list"
  type :: step_type

text \<open>The only exception the engine can raise is the TypeError of reading a property of
  \<open>undefined\<close>.\<close>

datatype error = TypeError

section \<open>Helpers of src/algorithms/astar.ts\<close>

definition absdiff :: "nat \<Rightarrow> nat \<Rightarrow> nat" where
  "absdiff a b = (if a < b then b - a else a - b)"

text \<open>Manhattan distance heuristic: \<open>Math.abs(node.row - finishNode.row) +
  Math.abs(node.col - finishNode.col)\<close>.\<close>

definition heuristic :: "NodeType \<Rightarrow> NodeType \<Rightarrow> enat" where
  "heuristic node finishNode =
     enat (absdiff (row node) (row finishNode) + absdiff (col node) (col finishNode))"

definition bind_err :: "error + 'a \<Rightarrow> ('a \<Rightarrow> error + 'b) \<Rightarrow> error + 'b" where
  "bind_err m f = (case m of Inl e \<Rightarrow> Inl e | Inr x \<Rightarrow> f x)"

text \<open>\<open>grid[r][c]\<close>: a row index out of range gives \<open>undefined\<close>, whose indexing
  throws; a column index out of range gives \<open>undefined\<close> (here \<open>None\<close>).\<close>

definition grid_at :: "GridType \<Rightarrow> nat \<Rightarrow> nat \<Rightarrow> error + addr option" where
  "grid_at grid r c =
     (if r < length grid
      then Inr (if c < length (grid ! r) then Some (grid ! r ! c) else None)
      else Inl TypeError)"

text \<open>\<open>grid[0].length\<close> throws on an empty grid.\<close>

definition row0_length :: "GridType \<Rightarrow> error + nat" where
  "row0_length grid = (case grid of [] \<Rightarrow> Inl TypeError | r0 # _ \<Rightarrow> Inr (length r0))"

text \<open>The final \<open>filter\<close> reads \<open>neighbor.isVisited\<close> of every collected entry and
  throws on an \<open>undefined\<close> one.\<close>

fun filter_unvisited :: "heap \<Rightarrow> addr option list \<Rightarrow> error + addr list" where
  "filter_unvisited h [] = Inr []"
| "filter_unvisited h (None # xs) = Inl TypeError"
| "filter_unvisited h (Some a # xs) =
     bind_err (filter_unvisited h xs)
       (\<lambda>r. Inr (if \<not> isVisited (h a) then a # r else r))"

text \<open>The bounds \<open>grid.length - 1\<close> and \<open>grid[0].length - 1\<close> are \<open>-1\<close> in the source
  when the length is 0, and 0 here; no row or column is below either.\<close>

definition getUnvisitedNeighbors :: "heap \<Rightarrow> addr \<Rightarrow> GridType \<Rightarrow> error + addr list" where
  "getUnvisitedNeighbors h node grid =
     (let r = row (h node); c = col (h node) in
      bind_err (if 0 < r then bind_err (grid_at grid (r - 1) c) (\<lambda>x. Inr [x]) else Inr [])
        (\<lambda>n1.
      bind_err (if r < length grid - 1
                then bind_err (grid_at grid (r + 1) c) (\<lambda>x. Inr (n1 @ [x])) else Inr n1)
        (\<lambda>n2.
      bind_err (if 0 < c then bind_err (grid_at grid r (c - 1)) (\<lambda>x. Inr (n2 @ [x])) else Inr n2)
        (\<lambda>n3.
      bind_err (row0_length grid)
        (\<lambda>w.
      bind_err (if c < w - 1
                then bind_err (grid_at grid r (c + 1)) (\<lambda>x. Inr (n3 @ [x])) else Inr n3)
        (\<lambda>n4. filter_unvisited h n4))))))"

section \<open>The search engine as a suspendable state machine\<close>

text \<open>
  \<open>astarGenerator\<close> is a generator: calling it runs nothing, and every \<open>next()\<close> runs
  the body up to the following \<open>yield\<close> or to its end. The control points where it can
  be suspended are: before the first statement, at the \<open>yield\<close> of the start node, at the
  \<open>yield\<close> of a visited node, and at the \<open>yield\<close> of a relaxed neighbour inside the
  \<open>for\<close> loop (with the neighbours still to be looked at). \<open>Returned\<close> records which
  statement ended the run.
\<close>

datatype exit = OpenSetEmpty | InfiniteDistance | GoalReached

datatype pc =
    NotStarted
  | YieldStart
  | YieldVisited addr
  | YieldOpen addr "addr list"
  | Returned exit

record gen =
  grid :: GridType
  startNode :: addr
  finishNode :: addr
  heap :: heap
  openSet :: "addr list"
  pc :: pc

definition astarGenerator :: "GridType \<Rightarrow> addr \<Rightarrow> addr \<Rightarrow> heap \<Rightarrow> gen" where
  "astarGenerator g s f h =
     \<lparr>grid = g, startNode = s, finishNode = f, heap = h, openSet = [], pc = NotStarted\<rparr>"

text \<open>The comparator \<open>a.fScore - b.fScore || a.hScore - b.hScore\<close> orders by fScore
  and then by hScore (a difference of two infinities is NaN, which is falsy in the first
  position and counts as 0 in the second); \<open>Array.prototype.sort\<close> is stable.\<close>

definition sort_key_of :: "heap \<Rightarrow> addr \<Rightarrow> enat \<times> enat" where
  "sort_key_of h a = (fScore (h a), hScore (h a))"

definition sort_open :: "heap \<Rightarrow> addr list \<Rightarrow> addr list" where
  "sort_open h os = sort_key (sort_key_of h) os"

text \<open>The \<open>while\<close> loop from its test up to the next \<open>yield\<close> or \<open>return\<close>. The
  \<open>break\<close> on a falsy \<open>closestNode\<close> cannot be taken: \<open>shift\<close> on a non-empty array
  of objects returns an object.\<close>

function while_loop :: "gen \<Rightarrow> AlgoStep option \<times> gen" where
  "while_loop s =
     (if openSet s = [] then (None, s\<lparr>pc := Returned OpenSetEmpty\<rparr>)
      else
        let sorted = sort_open (heap s) (openSet s);
            closestNode = hd sorted;
            s1 = s\<lparr>openSet := tl sorted\<rparr>
        in if isWall (heap s1 closestNode) then while_loop s1
           else if distance (heap s1 closestNode) = \<infinity> then (None, s1\<lparr>pc := Returned InfiniteDistance\<rparr>)
           else (Some \<lparr>nodes = [closestNode], type = visited\<rparr>,
                 s1\<lparr>heap := (heap s1)(closestNode := (heap s1 closestNode)\<lparr>isVisited := True\<rparr>),
                    pc := YieldVisited closestNode\<rparr>))"
  by pat_completeness auto
termination
  by (relation "measure (\<lambda>s. length (openSet s))") (auto simp: sort_open_def)

declare while_loop.simps [simp del]

text \<open>The \<open>for\<close> loop over the neighbours still to be looked at.\<close>

fun for_loop :: "gen \<Rightarrow> addr \<Rightarrow> addr list \<Rightarrow> AlgoStep option \<times> gen" where
  "for_loop s closestNode [] = while_loop s"
| "for_loop s closestNode (neighbor # rest) =
     (let h = heap s; tentativeGScore = gScore (h closestNode) + 1 in
      if tentativeGScore < gScore (h neighbor) then
        let hS = heuristic (h neighbor) (h (finishNode s));
            n' = (h neighbor)\<lparr>distance := tentativeGScore,
                               previousNode := Some closestNode,
                               fScore := tentativeGScore + hS,
                               gScore := tentativeGScore,
                               hScore := hS\<rparr>
        in (Some \<lparr>nodes = [neighbor], type = opened\<rparr>,
            s\<lparr>heap := h(neighbor := n'),
              openSet := (if neighbor \<in> set (openSet s) then openSet s
                          else openSet s @ [neighbor]),
              pc := YieldOpen closestNode rest\<rparr>)
      else for_loop s closestNode rest)"

text \<open>One call of \<open>next()\<close>: the event yielded (\<open>None\<close> when the generator is done) and
  the generator afterwards, or the exception thrown.\<close>

definition gen_next :: "gen \<Rightarrow> error + (AlgoStep option \<times> gen)" where
  "gen_next s =
     (case pc s of
        NotStarted \<Rightarrow>
          (let h = heap s; st = startNode s;
               hS = heuristic (h st) (h (finishNode s));
               n' = (h st)\<lparr>distance := 0, fScore := 0 + hS, gScore := 0, hScore := hS\<rparr>
           in Inr (Some \<lparr>nodes = [st], type = opened\<rparr>,
                   s\<lparr>heap := h(st := n'), openSet := [st], pc := YieldStart\<rparr>))
      | YieldStart \<Rightarrow> Inr (while_loop s)
      | YieldVisited closestNode \<Rightarrow>
          (if closestNode = finishNode s then Inr (None, s\<lparr>pc := Returned GoalReached\<rparr>)
           else bind_err (getUnvisitedNeighbors (heap s) closestNode (grid s))
                  (\<lambda>neighbors. Inr (for_loop s closestNode neighbors)))
      | YieldOpen closestNode rest \<Rightarrow> Inr (for_loop s closestNode rest)
      | Returned e \<Rightarrow> Inr (None, s))"

text \<open>The driver calls \<open>next()\<close> until the generator is done (\<open>performStep\<close> in the
  component), here at most \<open>n\<close> times: the events seen and the generator reached.\<close>

fun drive :: "nat \<Rightarrow> gen \<Rightarrow> error + (AlgoStep list \<times> gen)" where
  "drive 0 s = Inr ([], s)"
| "drive (Suc n) s =
     (case gen_next s of
        Inl e \<Rightarrow> Inl e
      | Inr (None, s') \<Rightarrow> Inr ([], s')
      | Inr (Some ev, s') \<Rightarrow>
          bind_err (drive n s') (\<lambda>(evs, s''). Inr (ev # evs, s'')))"

section \<open>The path reconstructor\<close>

text \<open>The loop follows \<open>previousNode\<close> until it is \<open>null\<close>; on a cyclic chain it does
  not return, which is the value \<open>None\<close> here.\<close>

partial_function (option) path_loop :: "heap \<Rightarrow> addr option \<Rightarrow> addr list \<Rightarrow> addr list option" where
  "path_loop h currentNode nodesInShortestPathOrder =
     (case currentNode of
        None \<Rightarrow> Some nodesInShortestPathOrder
      | Some a \<Rightarrow> path_loop h (previousNode (h a)) (a # nodesInShortestPathOrder))"

definition getNodesInShortestPathOrder :: "heap \<Rightarrow> addr \<Rightarrow> addr list option" where
  "getNodesInShortestPathOrder h fin = path_loop h (Some fin) []"

section \<open>Auxiliary notions for the proofs\<close>

definition closest :: "gen \<Rightarrow> addr" where
  "closest s = hd (sort_open (heap s) (openSet s))"

definition shifted :: "gen \<Rightarrow> gen" where
  "shifted s = s\<lparr>openSet := tl (sort_open (heap s) (openSet s))\<rparr>"

definition wl_empty :: "gen \<Rightarrow> AlgoStep option \<Rightarrow> gen \<Rightarrow> bool" where
  "wl_empty s ev s' \<longleftrightarrow> ev = None \<and> s' = s\<lparr>openSet := [], pc := Returned OpenSetEmpty\<rparr>
      \<and> (\<forall>a\<in>set (openSet s). isWall (heap s a))"

definition wl_inf :: "gen \<Rightarrow> AlgoStep option \<Rightarrow> gen \<Rightarrow> bool" where
  "wl_inf s ev s' \<longleftrightarrow> (\<exists>c os. ev = None \<and> s' = s\<lparr>openSet := os, pc := Returned InfiniteDistance\<rparr>
      \<and> c \<in> set (openSet s) \<and> distance (heap s c) = \<infinity> \<and> \<not> isWall (heap s c)
      \<and> set os \<subseteq> set (openSet s))"

definition wl_visit :: "gen \<Rightarrow> AlgoStep option \<Rightarrow> gen \<Rightarrow> bool" where
  "wl_visit s ev s' \<longleftrightarrow> (\<exists>c os. ev = Some \<lparr>nodes = [c], type = visited\<rparr>
      \<and> s' = s\<lparr>openSet := os, heap := (heap s)(c := (heap s c)\<lparr>isVisited := True\<rparr>),
                pc := YieldVisited c\<rparr>
      \<and> c \<in> set (openSet s) \<and> \<not> isWall (heap s c) \<and> distance (heap s c) \<noteq> \<infinity>
      \<and> set os \<subseteq> set (openSet s)
      \<and> (distinct (openSet s) \<longrightarrow> distinct os \<and> c \<notin> set os)
      \<and> (\<forall>b\<in>set (openSet s). b \<noteq> c \<and> \<not> isWall (heap s b) \<longrightarrow> b \<in> set os)
      \<and> (\<forall>b\<in>set (openSet s). \<not> isWall (heap s b) \<longrightarrow>
             sort_key_of (heap s) c \<le> sort_key_of (heap s) b))"

definition relaxed :: "gen \<Rightarrow> addr \<Rightarrow> addr \<Rightarrow> NodeType" where
  "relaxed s c nb =
     (heap s nb)\<lparr>distance := gScore (heap s c) + 1,
                 previousNode := Some c,
                 fScore := gScore (heap s c) + 1 + heuristic (heap s nb) (heap s (finishNode s)),
                 gScore := gScore (heap s c) + 1,
                 hScore := heuristic (heap s nb) (heap s (finishNode s))\<rparr>"

definition pushed :: "addr list \<Rightarrow> addr \<Rightarrow> addr list" where
  "pushed os nb = (if nb \<in> set os then os else os @ [nb])"

definition improves :: "gen \<Rightarrow> addr \<Rightarrow> addr \<Rightarrow> bool" where
  "improves s c nb \<longleftrightarrow> gScore (heap s c) + 1 < gScore (heap s nb)"

definition fl_relax :: "gen \<Rightarrow> addr \<Rightarrow> addr list \<Rightarrow> AlgoStep option \<Rightarrow> gen \<Rightarrow> bool" where
  "fl_relax s c nbs ev s' \<longleftrightarrow>
     (\<exists>pre nb rest. nbs = pre @ nb # rest \<and> (\<forall>x\<in>set pre. \<not> improves s c x) \<and> improves s c nb
        \<and> ev = Some \<lparr>nodes = [nb], type = opened\<rparr>
        \<and> s' = s\<lparr>heap := (heap s)(nb := relaxed s c nb),
                  openSet := pushed (openSet s) nb,
                  pc := YieldOpen c rest\<rparr>)"

definition fl_done :: "gen \<Rightarrow> addr \<Rightarrow> addr list \<Rightarrow> AlgoStep option \<Rightarrow> gen \<Rightarrow> bool" where
  "fl_done s c nbs ev s' \<longleftrightarrow> (\<forall>x\<in>set nbs. \<not> improves s c x) \<and> while_loop s = (ev, s')"

text \<open>The generator after \<open>n\<close> calls of \<open>next()\<close> (a finished generator stays as it is).\<close>

fun advance :: "nat \<Rightarrow> gen \<Rightarrow> error + gen" where
  "advance 0 s = Inr s"
| "advance (Suc n) s = (case gen_next s of Inl e \<Rightarrow> Inl e | Inr (ev, s') \<Rightarrow> advance n s')"

text \<open>What holds of every generator that has been started: the members of the open set
  have finite scores, the node being expanded is visited and is no wall, and the
  neighbours still to be looked at are unvisited.\<close>

definition pc_ok :: "gen \<Rightarrow> bool" where
  "pc_ok s =
     (case pc s of
        NotStarted \<Rightarrow> False
      | YieldStart \<Rightarrow> True
      | YieldVisited c \<Rightarrow> isVisited (heap s c) \<and> \<not> isWall (heap s c) \<and> gScore (heap s c) \<noteq> \<infinity>
      | YieldOpen c rest \<Rightarrow> isVisited (heap s c) \<and> \<not> isWall (heap s c) \<and> gScore (heap s c) \<noteq> \<infinity>
                              \<and> list_all (\<lambda>a. \<not> isVisited (heap s a)) rest
      | Returned e \<Rightarrow> e \<noteq> InfiniteDistance)"

definition run_inv :: "gen \<Rightarrow> bool" where
  "run_inv s \<longleftrightarrow>
     list_all (\<lambda>a. gScore (heap s a) \<noteq> \<infinity> \<and> distance (heap s a) \<noteq> \<infinity>) (openSet s) \<and> pc_ok s"

definition resumes :: "gen \<Rightarrow> addr \<Rightarrow> addr list \<Rightarrow> bool" where
  "resumes s c nbs \<longleftrightarrow>
     (pc s = YieldVisited c \<and> c \<noteq> finishNode s \<and>
        getUnvisitedNeighbors (heap s) c (grid s) = Inr nbs)
     \<or> pc s = YieldOpen c nbs"

definition loops :: "gen \<Rightarrow> bool" where
  "loops s \<longleftrightarrow> pc s = YieldStart \<or> (\<exists>c nbs. resumes s c nbs \<and> (\<forall>x\<in>set nbs. \<not> improves s c x))"

text \<open>Example inputs: the grid of \<open>R\<close> rows and \<open>C\<close> columns whose cell \<open>(r, c)\<close> is the
  node at address \<open>r * C + c\<close>, and the heap of reset nodes (as \<open>initGenerator\<close> in the
  component builds them) with walls at the given addresses.\<close>

definition resetNode :: "nat \<Rightarrow> nat \<Rightarrow> bool \<Rightarrow> NodeType" where
  "resetNode r c w =
     \<lparr>row = r, col = c, isStart = False, isFinish = False, distance = \<infinity>, isVisited = False,
      isWall = w, previousNode = None, fScore = \<infinity>, gScore = \<infinity>, hScore = \<infinity>\<rparr>"

definition grid_cells :: "nat \<Rightarrow> nat \<Rightarrow> GridType" where
  "grid_cells R C = map (\<lambda>r. map (\<lambda>c. r * C + c) [0..<C]) [0..<R]"

definition cleanHeap :: "nat \<Rightarrow> addr list \<Rightarrow> heap" where
  "cleanHeap C walls a = resetNode (a div C) (a mod C) (a \<in> set walls)"

text \<open>A corridor of three cells with a wall in the middle, and one with a wall goal.\<close>

definition corridor :: gen where
  "corridor = astarGenerator (grid_cells 1 3) 0 2 (cleanHeap 3 [1])"

definition corridor_wall_goal :: gen where
  "corridor_wall_goal = astarGenerator (grid_cells 1 3) 0 2 (cleanHeap 3 [2])"

definition blocked3 :: gen where
  "blocked3 = astarGenerator (grid_cells 3 3) 0 8 (cleanHeap 3 [1, 4, 7])"

declare path_loop.simps [code]

text \<open>A well-formed grid (the Grid of the specification's data model): a rectangle with at
  least one cell, where the node at \<open>grid[r][c]\<close> has \<open>row = r\<close> and \<open>col = c\<close>.\<close>

definition cells :: "GridType \<Rightarrow> addr set" where
  "cells g = set (concat g)"

definition wf_grid :: "heap \<Rightarrow> GridType \<Rightarrow> bool" where
  "wf_grid h g \<longleftrightarrow>
     g \<noteq> [] \<and> hd g \<noteq> [] \<and> (\<forall>rw\<in>set g. length rw = length (hd g)) \<and>
     (\<forall>r\<in>{0..<length g}. \<forall>c\<in>{0..<length (hd g)}.
        row (h (g ! r ! c)) = r \<and> col (h (g ! r ! c)) = c)"

text \<open>The cells next to position \<open>(r, c)\<close>, in the order in which \<open>getUnvisitedNeighbors\<close>
  collects them: up, down, left, right.\<close>

definition neighbors :: "GridType \<Rightarrow> nat \<Rightarrow> nat \<Rightarrow> addr list" where
  "neighbors g r c =
     (if 0 < r then [g ! (r - 1) ! c] else []) @
     (if r < length g - 1 then [g ! (r + 1) ! c] else []) @
     (if 0 < c then [g ! r ! (c - 1)] else []) @
     (if c < length (hd g) - 1 then [g ! r ! (c + 1)] else [])"

text \<open>What the termination argument keeps: the grid is well formed, the open set holds
  distinct cells that are unvisited (once the start node has been taken from it), and the
  nodes the control point refers to are cells.\<close>

definition pc_cells :: "gen \<Rightarrow> bool" where
  "pc_cells s =
     (case pc s of
        YieldVisited c \<Rightarrow> c \<in> cells (grid s)
      | YieldOpen c rest \<Rightarrow> c \<in> cells (grid s) \<and> set rest \<subseteq> cells (grid s)
      | YieldStart \<Rightarrow> (\<exists>a. openSet s = [a])
      | _ \<Rightarrow> True)"

definition term_inv :: "gen \<Rightarrow> bool" where
  "term_inv s \<longleftrightarrow>
     wf_grid (heap s) (grid s) \<and> run_inv s \<and> distinct (openSet s) \<and>
     set (openSet s) \<subseteq> cells (grid s) \<and>
     (pc s \<noteq> YieldStart \<longrightarrow> (\<forall>a\<in>set (openSet s). \<not> isVisited (heap s a))) \<and>
     pc_cells s"

definition unvisited :: "gen \<Rightarrow> addr set" where
  "unvisited s = {a \<in> cells (grid s). \<not> isVisited (heap s a)}"

definition stage :: "gen \<Rightarrow> nat" where
  "stage s = (case pc s of YieldVisited c \<Rightarrow> 5 | YieldOpen c rest \<Rightarrow> length rest | _ \<Rightarrow> 0)"

definition term_measure :: "gen \<Rightarrow> nat \<times> nat" where
  "term_measure s = (card (unvisited s) + (if pc s = YieldStart then 1 else 0), stage s)"

definition fin_inv :: "gen \<Rightarrow> bool" where
  "fin_inv s \<longleftrightarrow> (pc s = Returned OpenSetEmpty \<longrightarrow> openSet s = [])"

text \<open>Two cells are adjacent when they are one step apart along a row or a column. A cell
  is reachable from the start when a chain of adjacent cells that are no walls leads from
  the start to it; the start and the goal are separated by walls when the goal is not
  reachable.\<close>

definition adjacent :: "heap \<Rightarrow> addr \<Rightarrow> addr \<Rightarrow> bool" where
  "adjacent h a b \<longleftrightarrow>
     absdiff (row (h a)) (row (h b)) + absdiff (col (h a)) (col (h b)) = 1"

inductive reachable :: "heap \<Rightarrow> GridType \<Rightarrow> addr \<Rightarrow> addr \<Rightarrow> bool" for h g st where
  start: "st \<in> cells g \<Longrightarrow> \<not> isWall (h st) \<Longrightarrow> reachable h g st st"
| step: "reachable h g st a \<Longrightarrow> b \<in> cells g \<Longrightarrow> \<not> isWall (h b) \<Longrightarrow> adjacent h a b
           \<Longrightarrow> reachable h g st b"

definition same_layout :: "heap \<Rightarrow> heap \<Rightarrow> bool" where
  "same_layout h h' \<longleftrightarrow>
     (\<forall>a. row (h' a) = row (h a) \<and> col (h' a) = col (h a) \<and> isWall (h' a) = isWall (h a))"

definition near :: "heap \<Rightarrow> gen \<Rightarrow> addr \<Rightarrow> bool" where
  "near h s a \<longleftrightarrow>
     a \<in> cells (grid s) \<and>
     (a = startNode s \<or> (\<exists>p. reachable h (grid s) (startNode s) p \<and> adjacent h p a))"

definition reach_pc :: "heap \<Rightarrow> gen \<Rightarrow> bool" where
  "reach_pc h s =
     (case pc s of
        YieldVisited c \<Rightarrow> reachable h (grid s) (startNode s) c
      | YieldOpen c rest \<Rightarrow> reachable h (grid s) (startNode s) c
                              \<and> (\<forall>b\<in>set rest. b \<in> cells (grid s) \<and> adjacent h c b)
      | _ \<Rightarrow> True)"

definition reach_inv :: "heap \<Rightarrow> gen \<Rightarrow> bool" where
  "reach_inv h s \<longleftrightarrow>
     same_layout h (heap s) \<and> wf_grid h (grid s) \<and> startNode s \<in> cells (grid s) \<and>
     (\<forall>a\<in>set (openSet s). near h s a) \<and> reach_pc h s"

text \<open>The Manhattan distance between two nodes, as a natural number.\<close>

definition md :: "heap \<Rightarrow> addr \<Rightarrow> addr \<Rightarrow> nat" where
  "md h a b = absdiff (row (h a)) (row (h b)) + absdiff (col (h a)) (col (h b))"

text \<open>A grid without walls, and a grid whose search state has been reset (what
  \<open>initGenerator\<close> passes to the engine).\<close>

definition open_grid :: "heap \<Rightarrow> GridType \<Rightarrow> bool" where
  "open_grid h g \<longleftrightarrow> (\<forall>a\<in>cells g. \<not> isWall (h a))"

definition reset_state :: "heap \<Rightarrow> GridType \<Rightarrow> bool" where
  "reset_state h g \<longleftrightarrow>
     (\<forall>a\<in>cells g. distance (h a) = \<infinity> \<and> \<not> isVisited (h a) \<and> previousNode (h a) = None
        \<and> fScore (h a) = \<infinity> \<and> gScore (h a) = \<infinity> \<and> hScore (h a) = \<infinity>)"

text \<open>The invariant of the search on an open grid. \<open>pending s v\<close> are the neighbours of
  the visited node \<open>v\<close> that its expansion may still have to relax.\<close>

definition pending :: "gen \<Rightarrow> addr \<Rightarrow> addr set" where
  "pending s v =
     (case pc s of
        YieldVisited c \<Rightarrow> (if c = v then UNIV else {})
      | YieldOpen c rest \<Rightarrow> (if c = v then set rest else {})
      | _ \<Rightarrow> {})"

definition scores_ok :: "heap \<Rightarrow> gen \<Rightarrow> bool" where
  "scores_ok h s \<longleftrightarrow>
     (\<forall>a\<in>cells (grid s). gScore (heap s a) \<noteq> \<infinity> \<longrightarrow>
        hScore (heap s a) = enat (md h a (finishNode s))
        \<and> fScore (heap s a) = gScore (heap s a) + enat (md h a (finishNode s))
        \<and> enat (md h (startNode s) a) \<le> gScore (heap s a))"

definition frontier_ok :: "heap \<Rightarrow> gen \<Rightarrow> bool" where
  "frontier_ok h s \<longleftrightarrow>
     (\<forall>a\<in>set (openSet s). \<not> isVisited (heap s a))
     \<and> (\<forall>a\<in>cells (grid s). gScore (heap s a) \<noteq> \<infinity> \<and> \<not> isVisited (heap s a)
            \<longrightarrow> a \<in> set (openSet s))
     \<and> (\<forall>a\<in>cells (grid s). isVisited (heap s a)
            \<longrightarrow> gScore (heap s a) \<noteq> \<infinity>
                \<and> fScore (heap s a) = enat (md h (startNode s) (finishNode s)))"

definition expanded_ok :: "heap \<Rightarrow> gen \<Rightarrow> bool" where
  "expanded_ok h s \<longleftrightarrow>
     (\<forall>v\<in>cells (grid s). isVisited (heap s v) \<longrightarrow>
        (\<forall>m\<in>set (neighbors (grid s) (row (h v)) (col (h v))).
           isVisited (heap s m) \<or> m \<in> pending s v
           \<or> gScore (heap s m) \<le> gScore (heap s v) + 1))"

definition chain_ok :: "gen \<Rightarrow> bool" where
  "chain_ok s \<longleftrightarrow>
     previousNode (heap s (startNode s)) = None \<and> gScore (heap s (startNode s)) = 0
     \<and> (\<forall>a\<in>cells (grid s). a \<noteq> startNode s \<and> gScore (heap s a) \<noteq> \<infinity> \<longrightarrow>
           (\<exists>p\<in>cells (grid s). previousNode (heap s a) = Some p \<and> isVisited (heap s p)
               \<and> gScore (heap s a) = gScore (heap s p) + 1))"

definition goal_ok :: "gen \<Rightarrow> bool" where
  "goal_ok s \<longleftrightarrow>
     (\<forall>e. pc s \<noteq> Returned e)
     \<and> (isVisited (heap s (finishNode s)) \<longrightarrow> pc s = YieldVisited (finishNode s))
     \<and> (if pc s = YieldStart then openSet s = [startNode s]
         else isVisited (heap s (startNode s)))"

definition opt_inv :: "heap \<Rightarrow> gen \<Rightarrow> bool" where
  "opt_inv h s \<longleftrightarrow>
     term_inv s \<and> reach_inv h s \<and> finishNode s \<in> cells (grid s) \<and> open_grid h (grid s)
     \<and> scores_ok h s \<and> frontier_ok h s \<and> expanded_ok h s \<and> chain_ok s \<and> goal_ok s"


section \<open>The main loop\<close>

lemma sort_open_mset: "mset (sort_open h os) = mset os"
  by (simp add: sort_open_def)

lemma sort_open_set: "set (sort_open h os) = set os"
  by (simp add: sort_open_def)

lemma sort_open_length: "length (sort_open h os) = length os"
  by (simp add: sort_open_def)

lemma sort_open_distinct: "distinct (sort_open h os) = distinct os"
  by (simp add: sort_open_def)

lemma sort_open_hd_tl:
  assumes "os \<noteq> []"
  shows "hd (sort_open h os) # tl (sort_open h os) = sort_open h os"
  using assms sort_open_length[of h os] by (cases "sort_open h os") auto

lemma sort_open_hd_min:
  assumes "os \<noteq> []" "b \<in> set os"
  shows "sort_key_of h (hd (sort_open h os)) \<le> sort_key_of h b"
proof -
  let ?xs = "sort_open h os"
  have srt: "sorted (map (sort_key_of h) ?xs)" by (simp add: sort_open_def)
  obtain x xs where xs: "?xs = x # xs"
    using sort_open_hd_tl[OF assms(1), of h] by metis
  have "b \<in> set ?xs" using assms(2) by (simp add: sort_open_set)
  then show ?thesis using srt xs by auto
qed

lemma while_loop_unfold:
  "while_loop s =
     (if openSet s = [] then (None, s\<lparr>pc := Returned OpenSetEmpty\<rparr>)
      else if isWall (heap s (closest s)) then while_loop (shifted s)
      else if distance (heap s (closest s)) = \<infinity>
           then (None, (shifted s)\<lparr>pc := Returned InfiniteDistance\<rparr>)
      else (Some \<lparr>nodes = [closest s], type = visited\<rparr>,
            (shifted s)\<lparr>heap := (heap s)(closest s := (heap s (closest s))\<lparr>isVisited := True\<rparr>),
                        pc := YieldVisited (closest s)\<rparr>))"
  by (subst while_loop.simps) (simp add: Let_def closest_def shifted_def)

lemma while_loop_induct [case_names step]:
  assumes "\<And>s. (openSet s \<noteq> [] \<Longrightarrow> isWall (heap s (closest s)) \<Longrightarrow> P (shifted s)) \<Longrightarrow> P s"
  shows "P s"
proof (induction s rule: while_loop.induct)
  case (1 s)
  show ?case
    by (rule assms) (use "1" in \<open>simp add: closest_def shifted_def\<close>)
qed

lemma shifted_simps [simp]:
  "heap (shifted s) = heap s" "grid (shifted s) = grid s"
  "startNode (shifted s) = startNode s" "finishNode (shifted s) = finishNode s"
  "pc (shifted s) = pc s"
  by (simp_all add: shifted_def)

lemma closest_shifted:
  assumes "openSet s \<noteq> []"
  shows "set (openSet s) = insert (closest s) (set (openSet (shifted s)))"
    and "mset (openSet s) = add_mset (closest s) (mset (openSet (shifted s)))"
    and "distinct (openSet s) \<Longrightarrow> distinct (openSet (shifted s)) \<and> closest s \<notin> set (openSet (shifted s))"
    and "b \<in> set (openSet s) \<Longrightarrow> sort_key_of (heap s) (closest s) \<le> sort_key_of (heap s) b"
proof -
  have ct: "closest s # openSet (shifted s) = sort_open (heap s) (openSet s)"
    using sort_open_hd_tl[OF assms] by (simp add: closest_def shifted_def)
  show "set (openSet s) = insert (closest s) (set (openSet (shifted s)))"
    using arg_cong[OF ct, of set] by (simp add: sort_open_set)
  show "mset (openSet s) = add_mset (closest s) (mset (openSet (shifted s)))"
    using arg_cong[OF ct, of mset] by (simp add: sort_open_mset)
  show "distinct (openSet s) \<Longrightarrow> distinct (openSet (shifted s)) \<and> closest s \<notin> set (openSet (shifted s))"
    using arg_cong[OF ct, of distinct] by (simp add: sort_open_distinct)
  show "b \<in> set (openSet s) \<Longrightarrow> sort_key_of (heap s) (closest s) \<le> sort_key_of (heap s) b"
    unfolding closest_def using sort_open_hd_min[OF assms] by blast
qed

lemma while_loop_char:
  "while_loop s = (ev, s') \<Longrightarrow> wl_empty s ev s' \<or> wl_inf s ev s' \<or> wl_visit s ev s'"
proof (induction s rule: while_loop_induct)
  case (step s)
  show ?case
  proof (cases "openSet s = []")
    case True
    have "s\<lparr>openSet := []\<rparr> = s" using True by (cases s) auto
    then have "s\<lparr>openSet := [], pc := Returned OpenSetEmpty\<rparr> = s\<lparr>pc := Returned OpenSetEmpty\<rparr>"
      by simp
    with True step.prems show ?thesis
      by (simp add: while_loop_unfold[of s] wl_empty_def)
  next
    case False
    note cs = closest_shifted[OF False]
    show ?thesis
    proof (cases "isWall (heap s (closest s))")
      case True
      then have rec: "while_loop (shifted s) = (ev, s')"
        using step.prems False by (simp add: while_loop_unfold[of s])
      have upd: "\<And>os p. (shifted s)\<lparr>openSet := os, pc := p\<rparr> = s\<lparr>openSet := os, pc := p\<rparr>"
        "\<And>os hp p. (shifted s)\<lparr>openSet := os, heap := hp, pc := p\<rparr> = s\<lparr>openSet := os, heap := hp, pc := p\<rparr>"
        by (simp_all add: shifted_def)
      from step.IH[OF False True rec] show ?thesis
      proof (elim disjE)
        assume "wl_empty (shifted s) ev s'"
        then have "wl_empty s ev s'"
          using True cs(1) by (auto simp: wl_empty_def upd)
        then show ?thesis by simp
      next
        assume "wl_inf (shifted s) ev s'"
        then have "wl_inf s ev s'"
          unfolding wl_inf_def upd shifted_simps using cs(1) by blast
        then show ?thesis by simp
      next
        assume "wl_visit (shifted s) ev s'"
        then obtain c os where *: "ev = Some \<lparr>nodes = [c], type = visited\<rparr>"
          "s' = s\<lparr>openSet := os, heap := (heap s)(c := (heap s c)\<lparr>isVisited := True\<rparr>),
                pc := YieldVisited c\<rparr>"
          "c \<in> set (openSet (shifted s))" "\<not> isWall (heap s c)" "distance (heap s c) \<noteq> \<infinity>"
          "set os \<subseteq> set (openSet (shifted s))"
          "distinct (openSet (shifted s)) \<longrightarrow> distinct os \<and> c \<notin> set os"
          "\<forall>b\<in>set (openSet (shifted s)). b \<noteq> c \<and> \<not> isWall (heap s b) \<longrightarrow> b \<in> set os"
          "\<forall>b\<in>set (openSet (shifted s)). \<not> isWall (heap s b) \<longrightarrow>
             sort_key_of (heap s) c \<le> sort_key_of (heap s) b"
          unfolding wl_visit_def upd shifted_simps by blast
        have "wl_visit s ev s'"
          unfolding wl_visit_def
          apply (rule exI[of _ c], rule exI[of _ os])
          using * True cs(1) cs(3) by auto
        then show ?thesis by simp
      qed
    next
      case nw: False
      show ?thesis
      proof (cases "distance (heap s (closest s)) = \<infinity>")
        case True
        have "wl_inf s ev s'"
          unfolding wl_inf_def
          apply (rule exI[of _ "closest s"], rule exI[of _ "openSet (shifted s)"])
          using step.prems False nw True cs(1) by (auto simp: while_loop_unfold[of s] shifted_def)
        then show ?thesis by simp
      next
        case fin: False
        have "wl_visit s ev s'"
          unfolding wl_visit_def
          apply (rule exI[of _ "closest s"], rule exI[of _ "openSet (shifted s)"])
          using step.prems False nw fin cs(1) cs(3) cs(4)
          by (auto simp: while_loop_unfold[of s] shifted_def)
        then show ?thesis by simp
      qed
    qed
  qed
qed

section \<open>The neighbour loop and one call of next\<close>

lemma for_loop_char:
  "for_loop s c nbs = (ev, s') \<Longrightarrow> fl_relax s c nbs ev s' \<or> fl_done s c nbs ev s'"
proof (induction nbs)
  case Nil
  then show ?case by (simp add: fl_done_def)
next
  case (Cons nb rest)
  show ?case
  proof (cases "improves s c nb")
    case True
    have "fl_relax s c (nb # rest) ev s'"
      unfolding fl_relax_def
      apply (rule exI[of _ "[]"], rule exI[of _ nb], rule exI[of _ rest])
      using Cons.prems True by (auto simp: improves_def relaxed_def pushed_def Let_def)
    then show ?thesis by simp
  next
    case False
    then have "for_loop s c rest = (ev, s')"
      using Cons.prems by (simp add: improves_def Let_def)
    from Cons.IH[OF this] show ?thesis
    proof
      assume "fl_relax s c rest ev s'"
      then obtain pre x rest' where *: "rest = pre @ x # rest'" "\<forall>y\<in>set pre. \<not> improves s c y"
        "improves s c x" "ev = Some \<lparr>nodes = [x], type = opened\<rparr>"
        "s' = s\<lparr>heap := (heap s)(x := relaxed s c x), openSet := pushed (openSet s) x,
                pc := YieldOpen c rest'\<rparr>"
        unfolding fl_relax_def by blast
      have "fl_relax s c (nb # rest) ev s'"
        unfolding fl_relax_def
        apply (rule exI[of _ "nb # pre"], rule exI[of _ x], rule exI[of _ rest'])
        using * False by simp
      then show ?thesis by simp
    next
      assume "fl_done s c rest ev s'"
      then have "fl_done s c (nb # rest) ev s'" using False by (simp add: fl_done_def)
      then show ?thesis by simp
    qed
  qed
qed

lemma filter_unvisited_Inr:
  "filter_unvisited h xs = Inr r \<Longrightarrow>
     (\<forall>x\<in>set xs. x \<noteq> None) \<and> r = filter (\<lambda>a. \<not> isVisited (h a)) (map the xs)"
proof (induction h xs arbitrary: r rule: filter_unvisited.induct)
  case (1 h)
  then show ?case by simp
next
  case (2 h xs)
  then show ?case by simp
next
  case (3 h a xs)
  from "3.prems" obtain r' where r': "filter_unvisited h xs = Inr r'"
    and r: "r = (if \<not> isVisited (h a) then a # r' else r')"
    by (auto simp: bind_err_def split: sum.splits)
  from "3.IH"[OF r'] r show ?case by auto
qed

lemma getUnvisitedNeighbors_unvisited:
  assumes "getUnvisitedNeighbors h c g = Inr nbs"
  shows "\<forall>a\<in>set nbs. \<not> isVisited (h a)"
proof -
  from assms obtain xs where "filter_unvisited h xs = Inr nbs"
    unfolding getUnvisitedNeighbors_def Let_def bind_err_def
    by (auto split: sum.splits if_splits)
  from filter_unvisited_Inr[OF this] show ?thesis by auto
qed

text \<open>What one call of \<open>next()\<close> can do, by the control point it resumes from.\<close>

lemma gen_next_NotStarted:
  "pc s = NotStarted \<Longrightarrow> gen_next s = Inr (ev, s') \<longleftrightarrow>
     ev = Some \<lparr>nodes = [startNode s], type = opened\<rparr> \<and>
     s' = s\<lparr>heap := (heap s)(startNode s :=
                (heap s (startNode s))\<lparr>distance := 0,
                   fScore := 0 + heuristic (heap s (startNode s)) (heap s (finishNode s)),
                   gScore := 0,
                   hScore := heuristic (heap s (startNode s)) (heap s (finishNode s))\<rparr>),
             openSet := [startNode s], pc := YieldStart\<rparr>"
  by (auto simp: gen_next_def Let_def)

lemma gen_next_cases [consumes 1, case_names init start goal expand resume returned]:
  assumes "gen_next s = Inr (ev, s')"
  obtains
    (init) "pc s = NotStarted"
  | (start) "pc s = YieldStart" "while_loop s = (ev, s')"
  | (goal) "pc s = YieldVisited (finishNode s)" "ev = None" "s' = s\<lparr>pc := Returned GoalReached\<rparr>"
  | (expand) c nbs where "pc s = YieldVisited c" "c \<noteq> finishNode s"
      "getUnvisitedNeighbors (heap s) c (grid s) = Inr nbs" "for_loop s c nbs = (ev, s')"
  | (resume) c rest where "pc s = YieldOpen c rest" "for_loop s c rest = (ev, s')"
  | (returned) e where "pc s = Returned e" "ev = None" "s' = s"
  using assms unfolding gen_next_def bind_err_def
  by (cases "pc s") (auto split: if_splits sum.splits)

section \<open>Invariants of a started run\<close>

lemma advance_induct [consumes 1, case_names init step]:
  assumes "advance n s0 = Inr s"
    and "P s0"
    and "\<And>s ev s'. P s \<Longrightarrow> gen_next s = Inr (ev, s') \<Longrightarrow> P s'"
  shows "P s"
  using assms(1,2)
proof (induction n arbitrary: s0)
  case 0
  then show ?case by simp
next
  case (Suc n)
  from Suc.prems(1) obtain ev s1 where s1: "gen_next s0 = Inr (ev, s1)" and r: "advance n s1 = Inr s"
    by (auto split: sum.splits)
  from assms(3)[OF Suc.prems(2) s1] have "P s1" .
  from Suc.IH[OF r this] show ?case .
qed

lemma enat_less_finite: "(x::enat) < y \<Longrightarrow> x \<noteq> \<infinity>"
  by (cases x) auto

lemma improves_finite: "improves s c nb \<Longrightarrow> gScore (heap s c) + 1 \<noteq> \<infinity>"
  unfolding improves_def by (rule enat_less_finite)

lemma pushed_set: "set (pushed os nb) = insert nb (set os)"
  by (auto simp: pushed_def)

lemma while_loop_run_inv:
  assumes "while_loop s = (ev, s')"
    and "list_all (\<lambda>a. gScore (heap s a) \<noteq> \<infinity> \<and> distance (heap s a) \<noteq> \<infinity>) (openSet s)"
  shows "run_inv s'"
  using while_loop_char[OF assms(1)]
proof (elim disjE)
  assume "wl_empty s ev s'"
  then show ?thesis by (simp add: wl_empty_def run_inv_def pc_ok_def)
next
  assume "wl_inf s ev s'"
  then have False using assms(2) by (auto simp: wl_inf_def list_all_iff)
  then show ?thesis ..
next
  assume "wl_visit s ev s'"
  then show ?thesis using assms(2)
    by (auto simp: wl_visit_def run_inv_def pc_ok_def list_all_iff)
qed

lemma for_loop_run_inv:
  assumes "for_loop s c nbs = (ev, s')"
    and "list_all (\<lambda>a. gScore (heap s a) \<noteq> \<infinity> \<and> distance (heap s a) \<noteq> \<infinity>) (openSet s)"
    and "isVisited (heap s c)" "\<not> isWall (heap s c)" "gScore (heap s c) \<noteq> \<infinity>"
    and "list_all (\<lambda>a. \<not> isVisited (heap s a)) nbs"
  shows "run_inv s'"
  using for_loop_char[OF assms(1)]
proof
  assume "fl_done s c nbs ev s'"
  then show ?thesis using while_loop_run_inv assms(2) by (auto simp: fl_done_def)
next
  assume "fl_relax s c nbs ev s'"
  then obtain pre nb rest where *: "nbs = pre @ nb # rest" "improves s c nb"
    "s' = s\<lparr>heap := (heap s)(nb := relaxed s c nb), openSet := pushed (openSet s) nb,
            pc := YieldOpen c rest\<rparr>"
    unfolding fl_relax_def by blast
  have nbc: "nb \<noteq> c" using *(1) assms(3,6) by (auto simp: list_all_iff)
  have fin: "gScore (relaxed s c nb) \<noteq> \<infinity>" "distance (relaxed s c nb) \<noteq> \<infinity>"
    using improves_finite[OF *(2)] by (simp_all add: relaxed_def)
  have vis: "isVisited (relaxed s c nb) = isVisited (heap s nb)"
    by (simp add: relaxed_def)
  show ?thesis
    unfolding run_inv_def pc_ok_def
    using * nbc fin vis assms(2-6) by (auto simp: list_all_iff pushed_set)
qed

lemma run_inv_step:
  assumes "run_inv s" "gen_next s = Inr (ev, s')"
  shows "run_inv s'"
  using assms(2)
proof (cases rule: gen_next_cases)
  case init
  then show ?thesis using assms(1) by (simp add: run_inv_def pc_ok_def)
next
  case start
  then show ?thesis using assms(1) while_loop_run_inv by (auto simp: run_inv_def)
next
  case goal
  then show ?thesis using assms(1) by (simp add: run_inv_def pc_ok_def)
next
  case (expand c nbs)
  have "list_all (\<lambda>a. \<not> isVisited (heap s a)) nbs"
    using getUnvisitedNeighbors_unvisited[OF expand(3)] by (simp add: list_all_iff)
  then show ?thesis
    using for_loop_run_inv[OF expand(4)] assms(1) expand(1) by (simp add: run_inv_def pc_ok_def)
next
  case (resume c rest)
  then show ?thesis
    using for_loop_run_inv[OF resume(2)] assms(1) by (simp add: run_inv_def pc_ok_def)
next
  case (returned e)
  then show ?thesis using assms(1) by simp
qed

lemma run_inv_first:
  assumes "pc s = NotStarted" "gen_next s = Inr (ev, s')"
  shows "run_inv s'"
  using assms by (auto simp: gen_next_NotStarted run_inv_def pc_ok_def zero_enat_def)

lemma run_inv_or_init_step:
  assumes "pc s = NotStarted \<or> run_inv s" "gen_next s = Inr (ev, s')"
  shows "pc s' = NotStarted \<or> run_inv s'"
  using assms run_inv_first run_inv_step by blast

lemma run_inv_advance:
  assumes "advance n (astarGenerator g st fn h) = Inr s"
  shows "pc s = NotStarted \<or> run_inv s"
  using assms
proof (induction rule: advance_induct)
  case init
  show ?case by (simp add: astarGenerator_def)
next
  case (step s ev s')
  then show ?case by (rule run_inv_or_init_step)
qed

section \<open>One step, by cases\<close>

lemma step_cases [consumes 1, case_names init goal returned relax loop]:
  assumes "gen_next s = Inr (ev, s')"
  obtains
    (init) "pc s = NotStarted"
  | (goal) "pc s = YieldVisited (finishNode s)" "ev = None" "s' = s\<lparr>pc := Returned GoalReached\<rparr>"
  | (returned) e where "pc s = Returned e" "ev = None" "s' = s"
  | (relax) c nbs pre nb rest where "resumes s c nbs" "nbs = pre @ nb # rest"
      "\<forall>x\<in>set pre. \<not> improves s c x" "improves s c nb"
      "ev = Some \<lparr>nodes = [nb], type = opened\<rparr>"
      "s' = s\<lparr>heap := (heap s)(nb := relaxed s c nb), openSet := pushed (openSet s) nb,
              pc := YieldOpen c rest\<rparr>"
  | (loop) "loops s" "while_loop s = (ev, s')"
  using assms
proof (cases rule: gen_next_cases)
  case (expand c nbs)
  then have r: "resumes s c nbs" by (simp add: resumes_def)
  from for_loop_char[OF expand(4)] show ?thesis
  proof
    assume "fl_relax s c nbs ev s'"
    then show ?thesis unfolding fl_relax_def using r relax by blast
  next
    assume "fl_done s c nbs ev s'"
    then show ?thesis unfolding fl_done_def using r loop unfolding loops_def by blast
  qed
next
  case (resume c nbs)
  then have r: "resumes s c nbs" by (simp add: resumes_def)
  from for_loop_char[OF resume(2)] show ?thesis
  proof
    assume "fl_relax s c nbs ev s'"
    then show ?thesis unfolding fl_relax_def using r relax by blast
  next
    assume "fl_done s c nbs ev s'"
    then show ?thesis unfolding fl_done_def using r loop unfolding loops_def by blast
  qed
next
  case start
  then show ?thesis using loop by (simp add: loops_def)
next
  case init
  then show ?thesis by (rule that(1))
next
  case goal
  then show ?thesis by (rule that(2))
next
  case (returned e)
  then show ?thesis by (rule that(3))
qed

text \<open>Nothing but the search-state fields is ever written.\<close>

lemma relaxed_frame [simp]:
  "row (relaxed s c nb) = row (heap s nb)" "col (relaxed s c nb) = col (heap s nb)"
  "isWall (relaxed s c nb) = isWall (heap s nb)" "isVisited (relaxed s c nb) = isVisited (heap s nb)"
  "isStart (relaxed s c nb) = isStart (heap s nb)" "isFinish (relaxed s c nb) = isFinish (heap s nb)"
  by (simp_all add: relaxed_def)

lemma step_frame:
  assumes "gen_next s = Inr (ev, s')"
  shows "grid s' = grid s \<and> startNode s' = startNode s \<and> finishNode s' = finishNode s
         \<and> row (heap s' a) = row (heap s a) \<and> col (heap s' a) = col (heap s a)
         \<and> isWall (heap s' a) = isWall (heap s a)"
  using assms
proof (cases rule: step_cases)
  case init
  then show ?thesis using assms by (auto simp: gen_next_NotStarted)
next
  case loop
  from while_loop_char[OF loop(2)] show ?thesis
    by (auto simp: wl_empty_def wl_inf_def wl_visit_def split: if_splits)
qed auto

lemma wall_step:
  assumes "gen_next s = Inr (ev, s')" "isWall (heap s a)"
  shows "isVisited (heap s' a) = isVisited (heap s a) \<and> ev \<noteq> Some \<lparr>nodes = [a], type = visited\<rparr>"
  using assms(1)
proof (cases rule: step_cases)
  case init
  then show ?thesis using assms by (auto simp: gen_next_NotStarted)
next
  case loop
  from while_loop_char[OF loop(2)] show ?thesis using assms(2)
    by (auto simp: wl_empty_def wl_inf_def wl_visit_def split: if_splits)
qed auto

lemma visited_event:
  assumes "gen_next s = Inr (Some \<lparr>nodes = [a], type = visited\<rparr>, s')"
  shows "a \<in> set (openSet s) \<and> \<not> isWall (heap s a) \<and> distance (heap s a) \<noteq> \<infinity>
         \<and> pc s' = YieldVisited a \<and> pc s \<noteq> NotStarted"
  using assms
proof (cases rule: step_cases)
  case init
  then show ?thesis using assms by (auto simp: gen_next_NotStarted)
next
  case loop
  from while_loop_char[OF loop(2)] show ?thesis using loop(1)
    by (auto simp: wl_empty_def wl_inf_def wl_visit_def loops_def resumes_def split: if_splits)
qed auto

text \<open>A visited node keeps its scores and its predecessor.\<close>

lemma visited_frozen_step:
  assumes "run_inv s" "isVisited (heap s a)" "gen_next s = Inr (ev, s')"
  shows "isVisited (heap s' a) \<and> gScore (heap s' a) = gScore (heap s a)
         \<and> hScore (heap s' a) = hScore (heap s a) \<and> fScore (heap s' a) = fScore (heap s a)
         \<and> previousNode (heap s' a) = previousNode (heap s a)
         \<and> distance (heap s' a) = distance (heap s a)"
  using assms(3)
proof (cases rule: step_cases)
  case init
  then show ?thesis using assms(1) by (simp add: run_inv_def pc_ok_def)
next
  case (relax c nbs pre nb rest)
  have "\<not> isVisited (heap s nb)"
    using relax(1,2) assms(1) getUnvisitedNeighbors_unvisited[of "heap s" c "grid s" nbs]
    by (auto simp: resumes_def run_inv_def pc_ok_def list_all_iff)
  then have "nb \<noteq> a" using assms(2) by auto
  then show ?thesis using relax(6) assms(2) by simp
next
  case loop
  from while_loop_char[OF loop(2)] show ?thesis using assms(2)
    by (auto simp: wl_empty_def wl_inf_def wl_visit_def split: if_splits)
qed (use assms(2) in auto)

section \<open>Walls\<close>

lemma projr_collapse: "\<not> isl x \<Longrightarrow> x = Inr (projr x)"
  by (cases x) auto

lemma projr_collapse2: "\<not> isl x \<Longrightarrow> x = Inr (fst (projr x), snd (projr x))"
  by (cases x) auto

lemma wall_frame_advance:
  assumes "advance n s0 = Inr s" "isWall (heap s0 a)"
  shows "isWall (heap s a) \<and> isVisited (heap s a) = isVisited (heap s0 a)"
  using assms
proof (induction rule: advance_induct)
  case init
  then show ?case by simp
next
  case (step s ev s')
  then show ?case using step_frame[of s ev s' a] wall_step[of s ev s' a] by simp
qed


text \<open>Claim C1, as amended. A wall node is never expanded: in every generator reached from
  a run's start it still is a wall with its \<open>isVisited\<close> flag untouched, it is not the node
  whose neighbours are being relaxed, and no call of \<open>next()\<close> yields a VISITED event for
  it. (Its scores and predecessor, however, are written when a neighbour relaxes it: walls
  are only filtered out when they are taken from the open set.)\<close>

theorem wall_never_expanded:
  assumes "advance n (astarGenerator g st fn h) = Inr s"
    and "isWall (h a)"
    and "gen_next s = Inr (ev, s')"
  shows "isWall (heap s a) \<and> isVisited (heap s a) = isVisited (h a)
         \<and> pc s \<noteq> YieldVisited a \<and> (\<forall>rest. pc s \<noteq> YieldOpen a rest)
         \<and> ev \<noteq> Some \<lparr>nodes = [a], type = visited\<rparr>
         \<and> isVisited (heap s' a) = isVisited (h a)"
proof -
  have h0: "isWall (heap (astarGenerator g st fn h) a)"
    using assms(2) by (simp add: astarGenerator_def)
  from wall_frame_advance[OF assms(1) h0]
  have w: "isWall (heap s a)" and v: "isVisited (heap s a) = isVisited (h a)"
    by (simp_all add: astarGenerator_def)
  from run_inv_advance[OF assms(1)]
  have p: "pc s \<noteq> YieldVisited a \<and> (\<forall>rest. pc s \<noteq> YieldOpen a rest)"
    using w by (auto simp: run_inv_def pc_ok_def)
  from wall_step[OF assms(3) w] v p w show ?thesis by simp
qed

theorem wall_never_expanded_witness:
  "\<not> isl (advance 3 corridor) \<and> isWall (cleanHeap 3 [1] 1)
   \<and> \<not> isl (gen_next (projr (advance 3 corridor)))
   \<and> \<not> isVisited (heap (snd (projr (gen_next (projr (advance 3 corridor))))) 1)"
proof -
  have a: "\<not> isl (advance 3 corridor)" by code_simp
  have b: "isWall (cleanHeap 3 [1] 1)" by code_simp
  have c: "\<not> isl (gen_next (projr (advance 3 corridor)))" by code_simp
  have d: "\<not> isVisited (cleanHeap 3 [1] 1)" by code_simp
  from wall_never_expanded[where h = "cleanHeap 3 [1]" and a = 1,
      OF projr_collapse[OF a, unfolded corridor_def] b
         projr_collapse2[OF c, unfolded corridor_def]] a b c d
  show ?thesis by (simp add: corridor_def)
qed

theorem wall_relaxed_counterexample:
  "isWall (cleanHeap 3 [1] 1) \<and> gScore (cleanHeap 3 [1] 1) = \<infinity>
   \<and> previousNode (cleanHeap 3 [1] 1) = None
   \<and> \<not> isl (advance 3 corridor)
   \<and> isWall (heap (projr (advance 3 corridor)) 1)
   \<and> gScore (heap (projr (advance 3 corridor)) 1) = 1
   \<and> fScore (heap (projr (advance 3 corridor)) 1) = 2
   \<and> previousNode (heap (projr (advance 3 corridor)) 1) = Some 0"
  by code_simp

section \<open>Wall endpoints and the reconstructor on an unvisited goal\<close>






section \<open>Popping the minimum, finite visits, monotone scores and frozen nodes\<close>

lemma sort_key_of_le:
  "sort_key_of h c \<le> sort_key_of h b \<longleftrightarrow>
     fScore (h c) < fScore (h b) \<or> (fScore (h c) = fScore (h b) \<and> hScore (h c) \<le> hScore (h b))"
  by (auto simp: sort_key_of_def)

text \<open>Claim C6. Every iteration of the main loop on a non-empty open set removes one
  member, \<open>closest\<close>, and leaves the others, \<open>shifted\<close>; that member has the least
  fScore of the open set and, among those of the same fScore, the least hScore. If it is
  a wall, the iteration yields nothing and changes nothing else: the loop goes on from the
  remaining open set.\<close>

theorem pop_minimum_skip_wall:
  assumes "openSet s \<noteq> []"
  shows "closest s \<in> set (openSet s)
         \<and> mset (openSet s) = add_mset (closest s) (mset (openSet (shifted s)))
         \<and> (\<forall>b\<in>set (openSet s).
               fScore (heap s (closest s)) < fScore (heap s b)
               \<or> (fScore (heap s (closest s)) = fScore (heap s b)
                   \<and> hScore (heap s (closest s)) \<le> hScore (heap s b)))
         \<and> (isWall (heap s (closest s)) \<longrightarrow> while_loop s = while_loop (shifted s))
         \<and> (\<not> isWall (heap s (closest s)) \<longrightarrow> openSet (snd (while_loop s)) = openSet (shifted s))
         \<and> heap (shifted s) = heap s \<and> pc (shifted s) = pc s"
proof -
  note cs = closest_shifted[OF assms]
  have 1: "closest s \<in> set (openSet s)" using cs(1) by simp
  have 3: "\<forall>b\<in>set (openSet s).
               fScore (heap s (closest s)) < fScore (heap s b)
               \<or> (fScore (heap s (closest s)) = fScore (heap s b)
                   \<and> hScore (heap s (closest s)) \<le> hScore (heap s b))"
    using cs(4) by (simp add: sort_key_of_le)
  have 4: "isWall (heap s (closest s)) \<longrightarrow> while_loop s = while_loop (shifted s)"
    using assms by (simp add: while_loop_unfold[of s])
  have 5: "\<not> isWall (heap s (closest s)) \<longrightarrow> openSet (snd (while_loop s)) = openSet (shifted s)"
    using assms by (simp add: while_loop_unfold[of s])
  show ?thesis using 1 cs(2) 3 4 5 by simp
qed

theorem pop_minimum_skip_wall_witness:
  "openSet (projr (advance 5 corridor_wall_goal)) \<noteq> []
   \<and> closest (projr (advance 5 corridor_wall_goal)) = 2
   \<and> isWall (heap (projr (advance 5 corridor_wall_goal)) 2)
   \<and> while_loop (projr (advance 5 corridor_wall_goal))
       = while_loop (shifted (projr (advance 5 corridor_wall_goal)))"
proof -
  let ?s = "projr (advance 5 corridor_wall_goal)"
  have a: "openSet ?s \<noteq> []" by code_simp
  have b: "closest ?s = 2" by code_simp
  have c: "isWall (heap ?s 2)" by code_simp
  from pop_minimum_skip_wall[OF a] b c
  have "while_loop ?s = while_loop (shifted ?s)" by metis
  with a b c show ?thesis by blast
qed

text \<open>Claim C8. In a run from any start, a VISITED event is for a node that is no wall
  and whose gScore (and \<open>distance\<close>, which the guard reads) is finite when it is visited;
  and no call of \<open>next()\<close> ends the run through the guard on an infinite distance.\<close>

theorem visited_finite_no_wall:
  assumes "advance n (astarGenerator g st fn h) = Inr s"
    and "gen_next s = Inr (ev, s')"
  shows "(ev = Some \<lparr>nodes = [a], type = visited\<rparr> \<longrightarrow>
            gScore (heap s a) \<noteq> \<infinity> \<and> gScore (heap s' a) \<noteq> \<infinity>
            \<and> distance (heap s a) \<noteq> \<infinity>
            \<and> \<not> isWall (heap s a) \<and> \<not> isWall (h a))
         \<and> pc s' \<noteq> Returned InfiniteDistance"
proof -
  from run_inv_advance[OF assms(1)] have i: "pc s = NotStarted \<or> run_inv s" .
  from run_inv_or_init_step[OF i assms(2)] have i': "pc s' = NotStarted \<or> run_inv s'" .
  then have r: "pc s' \<noteq> Returned InfiniteDistance" by (auto simp: run_inv_def pc_ok_def)
  have "gScore (heap s a) \<noteq> \<infinity> \<and> gScore (heap s' a) \<noteq> \<infinity> \<and> distance (heap s a) \<noteq> \<infinity>
        \<and> \<not> isWall (heap s a) \<and> \<not> isWall (h a)"
    if ev: "ev = Some \<lparr>nodes = [a], type = visited\<rparr>"
  proof -
    from visited_event[OF assms(2)[unfolded ev]]
    have v: "a \<in> set (openSet s)" "\<not> isWall (heap s a)" "distance (heap s a) \<noteq> \<infinity>"
      "pc s' = YieldVisited a" "pc s \<noteq> NotStarted" by simp_all
    from i v(5) have ri: "run_inv s" by simp
    then have g: "gScore (heap s a) \<noteq> \<infinity>" using v(1) by (simp add: run_inv_def list_all_iff)
    from i' v(4) have "run_inv s'" by simp
    then have g': "gScore (heap s' a) \<noteq> \<infinity>" using v(4) by (simp add: run_inv_def pc_ok_def)
    have "isWall (h a) \<Longrightarrow> isWall (heap s a)"
      using wall_frame_advance[OF assms(1), of a] by (simp add: astarGenerator_def)
    then show ?thesis using v g g' by blast
  qed
  then show ?thesis using r by blast
qed

theorem visited_finite_no_wall_witness:
  "\<not> isl (advance 1 corridor) \<and> \<not> isl (gen_next (projr (advance 1 corridor)))
   \<and> fst (projr (gen_next (projr (advance 1 corridor)))) = Some \<lparr>nodes = [0], type = visited\<rparr>
   \<and> gScore (heap (projr (advance 1 corridor)) 0) \<noteq> \<infinity>
   \<and> \<not> isWall (cleanHeap 3 [1] 0)"
proof -
  let ?s = "projr (advance 1 corridor)"
  have a: "\<not> isl (advance 1 corridor)" by code_simp
  have b: "\<not> isl (gen_next ?s)" by code_simp
  have c: "fst (projr (gen_next ?s)) = Some \<lparr>nodes = [0], type = visited\<rparr>" by code_simp
  from visited_finite_no_wall[where h = "cleanHeap 3 [1]" and a = 0,
      OF projr_collapse[OF a, unfolded corridor_def]
         projr_collapse2[OF b, unfolded corridor_def]] a b c
  show ?thesis unfolding corridor_def by blast
qed

text \<open>Claim C9. A call of \<open>next()\<close> assigns to the gScore of a node exactly when it
  yields an OPEN event for that node, and the value assigned is strictly below the one the
  node had (the first call assigns 0 to the start node, whose gScore in a reset grid is
  infinite); no other gScore changes. So a gScore, once set, only ever decreases.\<close>

theorem gScore_only_decreases:
  assumes "gen_next s = Inr (ev, s')"
    and "pc s = NotStarted \<longrightarrow> gScore (heap s (startNode s)) = \<infinity>"
  shows "(ev = Some \<lparr>nodes = [a], type = opened\<rparr> \<longrightarrow> gScore (heap s' a) < gScore (heap s a))
         \<and> (ev \<noteq> Some \<lparr>nodes = [a], type = opened\<rparr> \<longrightarrow> gScore (heap s' a) = gScore (heap s a))"
  using assms(1)
proof (cases rule: step_cases)
  case init
  then have "gScore (heap s (startNode s)) = \<infinity>" using assms(2) by simp
  then show ?thesis using assms(1) init by (auto simp: gen_next_NotStarted)
next
  case (relax c nbs pre nb rest)
  have "gScore (relaxed s c nb) < gScore (heap s nb)"
    using relax(4) by (simp add: improves_def relaxed_def)
  then show ?thesis using relax(5,6) by auto
next
  case loop
  from while_loop_char[OF loop(2)] show ?thesis
    by (auto simp: wl_empty_def wl_inf_def wl_visit_def split: if_splits)
qed auto

theorem gScore_only_decreases_witness:
  "\<not> isl (gen_next (projr (advance 2 corridor)))
   \<and> pc (projr (advance 2 corridor)) \<noteq> NotStarted
   \<and> fst (projr (gen_next (projr (advance 2 corridor)))) = Some \<lparr>nodes = [1], type = opened\<rparr>
   \<and> gScore (heap (snd (projr (gen_next (projr (advance 2 corridor))))) 1)
       < gScore (heap (projr (advance 2 corridor)) 1)
   \<and> \<not> isl (gen_next corridor)
   \<and> pc corridor = NotStarted \<and> gScore (heap corridor (startNode corridor)) = \<infinity>
   \<and> fst (projr (gen_next corridor)) = Some \<lparr>nodes = [0], type = opened\<rparr>
   \<and> gScore (heap (snd (projr (gen_next corridor))) 0) < gScore (heap corridor 0)"
proof -
  let ?s = "projr (advance 2 corridor)"
  have a: "\<not> isl (gen_next ?s)" by code_simp
  have b: "pc ?s \<noteq> NotStarted" by code_simp
  have c: "fst (projr (gen_next ?s)) = Some \<lparr>nodes = [1], type = opened\<rparr>" by code_simp
  have a0: "\<not> isl (gen_next corridor)" by code_simp
  have b0: "pc corridor = NotStarted" "gScore (heap corridor (startNode corridor)) = \<infinity>"
    by code_simp+
  have c0: "fst (projr (gen_next corridor)) = Some \<lparr>nodes = [0], type = opened\<rparr>" by code_simp
  have h: "pc ?s = NotStarted \<longrightarrow> gScore (heap ?s (startNode ?s)) = \<infinity>" using b by blast
  have h0: "pc corridor = NotStarted \<longrightarrow> gScore (heap corridor (startNode corridor)) = \<infinity>"
    using b0 by blast
  from gScore_only_decreases[OF projr_collapse2[OF a] h, of 1]
    gScore_only_decreases[OF projr_collapse2[OF a0] h0, of 0] a b c a0 b0 c0
  show ?thesis by blast
qed

lemma visited_frozen_advance:
  assumes "advance m s1 = Inr s2" "run_inv s1" "isVisited (heap s1 a)"
  shows "run_inv s2 \<and> isVisited (heap s2 a) \<and> gScore (heap s2 a) = gScore (heap s1 a)
         \<and> hScore (heap s2 a) = hScore (heap s1 a) \<and> fScore (heap s2 a) = fScore (heap s1 a)
         \<and> previousNode (heap s2 a) = previousNode (heap s1 a)
         \<and> distance (heap s2 a) = distance (heap s1 a)"
  using assms
proof (induction rule: advance_induct)
  case init
  then show ?case by simp
next
  case (step s ev s')
  then have i: "run_inv s" "isVisited (heap s a)" by simp_all
  from visited_frozen_step[OF i step(2)] run_inv_step[OF i(1) step(2)] step(1)[OF step(3,4)]
  show ?case by simp
qed

text \<open>Claim C10. Once a node has received its VISITED event, its gScore, hScore, fScore
  and previousNode (and its \<open>distance\<close>) stay as they are for the rest of the run, and it
  stays visited.\<close>

theorem visited_fields_frozen:
  assumes "advance n (astarGenerator g st fn h) = Inr s"
    and "gen_next s = Inr (Some \<lparr>nodes = [a], type = visited\<rparr>, s1)"
    and "advance m s1 = Inr s2"
  shows "isVisited (heap s2 a) \<and> gScore (heap s2 a) = gScore (heap s1 a)
         \<and> hScore (heap s2 a) = hScore (heap s1 a) \<and> fScore (heap s2 a) = fScore (heap s1 a)
         \<and> previousNode (heap s2 a) = previousNode (heap s1 a)
         \<and> distance (heap s2 a) = distance (heap s1 a)"
proof -
  from visited_event[OF assms(2)] have v: "pc s1 = YieldVisited a" "pc s \<noteq> NotStarted" by simp_all
  from run_inv_advance[OF assms(1)] v(2) have "run_inv s" by simp
  from run_inv_step[OF this assms(2)] have r1: "run_inv s1" .
  then have "isVisited (heap s1 a)" using v(1) by (simp add: run_inv_def pc_ok_def)
  from visited_frozen_advance[OF assms(3) r1 this] show ?thesis by simp
qed

theorem visited_fields_frozen_witness:
  "\<not> isl (advance 1 corridor) \<and> \<not> isl (gen_next (projr (advance 1 corridor)))
   \<and> fst (projr (gen_next (projr (advance 1 corridor)))) = Some \<lparr>nodes = [0], type = visited\<rparr>
   \<and> \<not> isl (advance 5 (snd (projr (gen_next (projr (advance 1 corridor))))))
   \<and> gScore (heap (projr (advance 5 (snd (projr (gen_next (projr (advance 1 corridor))))))) 0)
      = gScore (heap (snd (projr (gen_next (projr (advance 1 corridor))))) 0)"
proof -
  let ?s = "projr (advance 1 corridor)"
  let ?s1 = "snd (projr (gen_next ?s))"
  have a: "\<not> isl (advance 1 corridor)" by code_simp
  have b: "\<not> isl (gen_next ?s)" by code_simp
  have c: "fst (projr (gen_next ?s)) = Some \<lparr>nodes = [0], type = visited\<rparr>" by code_simp
  have d: "\<not> isl (advance 5 ?s1)" by code_simp
  have e: "gen_next ?s = Inr (Some \<lparr>nodes = [0], type = visited\<rparr>, ?s1)"
    using projr_collapse2[OF b] c by metis
  from visited_fields_frozen[where h = "cleanHeap 3 [1]",
      OF projr_collapse[OF a, unfolded corridor_def] e[unfolded corridor_def]
         projr_collapse[OF d, unfolded corridor_def]] a b c d
  show ?thesis unfolding corridor_def by blast
qed

section \<open>The reconstructor follows the predecessor chain\<close>







section \<open>Well-formed grids\<close>

lemma wf_gridD:
  assumes "wf_grid h g"
  shows "g \<noteq> []" "hd g \<noteq> []"
    and "\<And>rw. rw \<in> set g \<Longrightarrow> length rw = length (hd g)"
    and "\<And>r c. r < length g \<Longrightarrow> c < length (hd g) \<Longrightarrow>
           row (h (g ! r ! c)) = r \<and> col (h (g ! r ! c)) = c"
proof -
  from assms have a: "g \<noteq> []" and b: "hd g \<noteq> []"
    and c: "\<forall>rw\<in>set g. length rw = length (hd g)"
    and d: "\<forall>r\<in>{0..<length g}. \<forall>c\<in>{0..<length (hd g)}.
              row (h (g ! r ! c)) = r \<and> col (h (g ! r ! c)) = c"
    unfolding wf_grid_def by blast+
  show "g \<noteq> []" by (rule a)
  show "hd g \<noteq> []" by (rule b)
  show "\<And>rw. rw \<in> set g \<Longrightarrow> length rw = length (hd g)" using c by blast
  show "row (h (g ! r ! c)) = r \<and> col (h (g ! r ! c)) = c"
    if "r < length g" "c < length (hd g)" for r c
  proof -
    have "r \<in> {0..<length g}" "c \<in> {0..<length (hd g)}" using that by simp_all
    then show ?thesis using d by blast
  qed
qed

lemma wf_grid_row_length:
  assumes "wf_grid h g" "r < length g"
  shows "length (g ! r) = length (hd g)"
  using wf_gridD(3)[OF assms(1)] assms(2) nth_mem by blast

lemma wf_grid_at:
  assumes "wf_grid h g" "r < length g" "c < length (hd g)"
  shows "g ! r ! c \<in> cells g" "row (h (g ! r ! c)) = r" "col (h (g ! r ! c)) = c"
proof -
  have "c < length (g ! r)" using assms wf_grid_row_length by simp
  then have "g ! r ! c \<in> set (g ! r)" by simp
  moreover have "g ! r \<in> set g" using assms(2) by simp
  ultimately show "g ! r ! c \<in> cells g" unfolding cells_def by auto
  show "row (h (g ! r ! c)) = r" "col (h (g ! r ! c)) = c"
    using wf_gridD(4)[OF assms] by simp_all
qed

lemma wf_grid_cell:
  assumes "wf_grid h g" "a \<in> cells g"
  shows "row (h a) < length g \<and> col (h a) < length (hd g) \<and> g ! row (h a) ! col (h a) = a"
proof -
  from assms(2) obtain rw where rw: "rw \<in> set g" "a \<in> set rw" unfolding cells_def by auto
  then obtain r where r: "r < length g" "g ! r = rw" by (auto simp: in_set_conv_nth)
  from rw(2) obtain c where c: "c < length rw" "rw ! c = a" by (auto simp: in_set_conv_nth)
  have "length rw = length (hd g)" using wf_gridD(3)[OF assms(1) rw(1)] .
  then have c': "c < length (hd g)" using c(1) by simp
  from wf_grid_at(2,3)[OF assms(1) r(1) c'] r(2) c(2) r(1) c'
  show ?thesis by simp
qed

lemma wf_grid_frame:
  assumes "\<And>a. row (h' a) = row (h a)" "\<And>a. col (h' a) = col (h a)"
  shows "wf_grid h' g = wf_grid h g"
  by (simp only: wf_grid_def assms)

lemma grid_at_wf:
  assumes "wf_grid h g" "r < length g" "c < length (hd g)"
  shows "grid_at g r c = Inr (Some (g ! r ! c))"
  using assms wf_grid_row_length[OF assms(1,2)] by (simp add: grid_at_def)

lemma filter_unvisited_Some:
  "filter_unvisited h (map Some xs) = Inr (filter (\<lambda>a. \<not> isVisited (h a)) xs)"
  by (induction xs) (auto simp: bind_err_def)

lemma getUnvisitedNeighbors_wf:
  assumes "wf_grid h g" "a \<in> cells g"
  shows "getUnvisitedNeighbors h a g =
           Inr (filter (\<lambda>b. \<not> isVisited (h b)) (neighbors g (row (h a)) (col (h a))))"
proof -
  define r c where "r = row (h a)" and "c = col (h a)"
  from wf_grid_cell[OF assms] have rc: "r < length g" "c < length (hd g)"
    by (simp_all add: r_def c_def)
  have g: "g \<noteq> []" using wf_gridD(1)[OF assms(1)] .
  have r0: "row0_length g = Inr (length (hd g))"
    using g by (cases g) (simp_all add: row0_length_def)
  have up: "0 < r \<Longrightarrow> grid_at g (r - 1) c = Inr (Some (g ! (r - 1) ! c))"
    using rc by (intro grid_at_wf[OF assms(1)]) auto
  have dn: "r < length g - 1 \<Longrightarrow> grid_at g (r + 1) c = Inr (Some (g ! (r + 1) ! c))"
    using rc by (intro grid_at_wf[OF assms(1)]) auto
  have lf: "0 < c \<Longrightarrow> grid_at g r (c - 1) = Inr (Some (g ! r ! (c - 1)))"
    using rc by (intro grid_at_wf[OF assms(1)]) auto
  have rg: "c < length (hd g) - 1 \<Longrightarrow> grid_at g r (c + 1) = Inr (Some (g ! r ! (c + 1)))"
    using rc by (intro grid_at_wf[OF assms(1)]) auto
  have bind_Inr: "\<And>x f. bind_err (Inr x) f = f x" by (simp add: bind_err_def)
  have e1: "(if 0 < r then bind_err (grid_at g (r - 1) c) (\<lambda>x. Inr [x]) else Inr [])
            = Inr (map Some (if 0 < r then [g ! (r - 1) ! c] else []))"
    using up by (simp add: bind_err_def)
  have e2: "\<And>n1. (if r < length g - 1
                    then bind_err (grid_at g (r + 1) c) (\<lambda>x. Inr (n1 @ [x])) else Inr n1)
            = Inr (n1 @ map Some (if r < length g - 1 then [g ! (r + 1) ! c] else []))"
    using dn by (simp add: bind_err_def)
  have e3: "\<And>n2. (if 0 < c then bind_err (grid_at g r (c - 1)) (\<lambda>x. Inr (n2 @ [x])) else Inr n2)
            = Inr (n2 @ map Some (if 0 < c then [g ! r ! (c - 1)] else []))"
    using lf by (simp add: bind_err_def)
  have e4: "\<And>n3. (if c < length (hd g) - 1
                    then bind_err (grid_at g r (c + 1)) (\<lambda>x. Inr (n3 @ [x])) else Inr n3)
            = Inr (n3 @ map Some (if c < length (hd g) - 1 then [g ! r ! (c + 1)] else []))"
    using rg by (simp add: bind_err_def)
  have "getUnvisitedNeighbors h a g = filter_unvisited h (map Some (neighbors g r c))"
    unfolding getUnvisitedNeighbors_def Let_def r_def[symmetric] c_def[symmetric]
      e1 e2 e3 r0 bind_Inr e4 neighbors_def
    by (simp only: map_append append_assoc)
  then show ?thesis by (simp only: filter_unvisited_Some r_def c_def)
qed

lemma neighbors_length: "length (neighbors g r c) \<le> 4"
  by (simp add: neighbors_def)

lemma neighbors_cells:
  assumes "wf_grid h g" "r < length g" "c < length (hd g)"
  shows "set (neighbors g r c) \<subseteq> cells g"
proof -
  have "0 < r \<Longrightarrow> g ! (r - 1) ! c \<in> cells g"
    using assms by (intro wf_grid_at(1)[OF assms(1)]) auto
  moreover have "r < length g - 1 \<Longrightarrow> g ! (r + 1) ! c \<in> cells g"
    using assms by (intro wf_grid_at(1)[OF assms(1)]) auto
  moreover have "0 < c \<Longrightarrow> g ! r ! (c - 1) \<in> cells g"
    using assms by (intro wf_grid_at(1)[OF assms(1)]) auto
  moreover have "c < length (hd g) - 1 \<Longrightarrow> g ! r ! (c + 1) \<in> cells g"
    using assms by (intro wf_grid_at(1)[OF assms(1)]) auto
  ultimately show ?thesis by (auto simp: neighbors_def)
qed

section \<open>Termination\<close>

lemma finite_cells [simp]: "finite (cells g)"
  by (simp add: cells_def)

lemma finite_unvisited [simp]: "finite (unvisited s)"
  by (simp add: unvisited_def)

lemma pushed_distinct: "distinct os \<Longrightarrow> distinct (pushed os nb)"
  by (simp add: pushed_def)

lemma gen_next_total:
  assumes "term_inv s"
  shows "\<exists>ev s'. gen_next s = Inr (ev, s')"
proof (cases "pc s")
  case (YieldVisited c)
  then have "c \<in> cells (grid s)" using assms by (simp add: term_inv_def pc_cells_def)
  from getUnvisitedNeighbors_wf[OF _ this, of "heap s"] assms
  obtain nbs where "getUnvisitedNeighbors (heap s) c (grid s) = Inr nbs"
    by (auto simp: term_inv_def)
  then show ?thesis using YieldVisited
    by (cases "for_loop s c nbs") (auto simp: gen_next_def bind_err_def)
next
  case NotStarted
  then show ?thesis by (simp add: gen_next_def Let_def)
next
  case YieldStart
  then show ?thesis by (cases "while_loop s") (simp add: gen_next_def)
next
  case (YieldOpen c rest)
  then show ?thesis by (cases "for_loop s c rest") (simp add: gen_next_def)
next
  case (Returned e)
  then show ?thesis by (simp add: gen_next_def)
qed

lemma resumes_facts:
  assumes "term_inv s" "resumes s c nbs"
  shows "c \<in> cells (grid s)" "set nbs \<subseteq> cells (grid s)" "\<forall>x\<in>set nbs. \<not> isVisited (heap s x)"
    "length nbs \<le> stage s" "pc s \<noteq> YieldStart"
proof -
  from assms(2) consider
    (a) "pc s = YieldVisited c" "getUnvisitedNeighbors (heap s) c (grid s) = Inr nbs"
    | (b) "pc s = YieldOpen c nbs"
    unfolding resumes_def by blast
  then have "c \<in> cells (grid s) \<and> set nbs \<subseteq> cells (grid s) \<and> (\<forall>x\<in>set nbs. \<not> isVisited (heap s x))
      \<and> length nbs \<le> stage s \<and> pc s \<noteq> YieldStart"
  proof cases
    case a
    have wf: "wf_grid (heap s) (grid s)" and c: "c \<in> cells (grid s)"
      using assms(1) a(1) by (simp_all add: term_inv_def pc_cells_def)
    note rc = wf_grid_cell[OF wf c]
    have nbs: "nbs = filter (\<lambda>b. \<not> isVisited (heap s b))
                 (neighbors (grid s) (row (heap s c)) (col (heap s c)))"
      using getUnvisitedNeighbors_wf[OF wf c] a(2) by simp
    have "length nbs \<le> 4"
      unfolding nbs using neighbors_length[of "grid s" "row (heap s c)" "col (heap s c)"]
        length_filter_le[of "\<lambda>b. \<not> isVisited (heap s b)"
          "neighbors (grid s) (row (heap s c)) (col (heap s c))"]
      by linarith
    moreover have "set nbs \<subseteq> cells (grid s)"
      unfolding nbs using neighbors_cells[OF wf, of "row (heap s c)" "col (heap s c)"] rc by auto
    ultimately show ?thesis using c a(1) nbs by (auto simp: stage_def)
  next
    case b
    then show ?thesis using assms(1)
      by (auto simp: term_inv_def pc_cells_def run_inv_def pc_ok_def stage_def list_all_iff)
  qed
  then show "c \<in> cells (grid s)" "set nbs \<subseteq> cells (grid s)" "\<forall>x\<in>set nbs. \<not> isVisited (heap s x)"
    "length nbs \<le> stage s" "pc s \<noteq> YieldStart" by blast+
qed

lemma term_step_relax:
  assumes "term_inv s" "resumes s c nbs" "nbs = pre @ nb # rest" "improves s c nb"
    and s': "s' = s\<lparr>heap := (heap s)(nb := relaxed s c nb), openSet := pushed (openSet s) nb,
              pc := YieldOpen c rest\<rparr>"
    and ri: "run_inv s'"
  shows "term_inv s' \<and> (term_measure s', term_measure s) \<in> less_than <*lex*> less_than"
proof -
  note rf = resumes_facts[OF assms(1,2)]
  have nb: "nb \<in> cells (grid s)" "\<not> isVisited (heap s nb)" "set rest \<subseteq> cells (grid s)"
    using rf(2,3) assms(3) by auto
  have vis: "\<And>a. isVisited (heap s' a) = isVisited (heap s a)"
    by (simp add: s')
  have wf: "wf_grid (heap s') (grid s')"
    using assms(1) wf_grid_frame[of "heap s'" "heap s" "grid s"] by (simp add: s' term_inv_def)
  have os: "distinct (openSet s')" "set (openSet s') \<subseteq> cells (grid s')"
    "\<forall>a\<in>set (openSet s'). \<not> isVisited (heap s' a)"
    using assms(1) nb rf(5) by (auto simp: s' term_inv_def pushed_distinct pushed_set)
  have pcc: "pc_cells s'" using rf(1) nb(3) by (simp add: s' pc_cells_def)
  have ti: "term_inv s'" using wf ri os pcc by (simp add: term_inv_def)
  have unv: "unvisited s' = unvisited s" by (auto simp: unvisited_def s')
  have "stage s' = length rest" by (simp add: stage_def s')
  then have st: "stage s' < stage s" using rf(4) assms(3) by simp
  have "pc s' \<noteq> YieldStart" by (simp add: s')
  then have "(term_measure s', term_measure s) \<in> less_than <*lex*> less_than"
    using unv st rf(5) by (simp add: term_measure_def)
  with ti show ?thesis by simp
qed

lemma term_step_visit:
  assumes "term_inv s" "wl_visit s ev s'" and ri: "run_inv s'"
  shows "term_inv s' \<and> (term_measure s', term_measure s) \<in> less_than <*lex*> less_than"
proof -
  from assms(2) obtain c os where *:
    "s' = s\<lparr>openSet := os, heap := (heap s)(c := (heap s c)\<lparr>isVisited := True\<rparr>),
            pc := YieldVisited c\<rparr>"
    "c \<in> set (openSet s)" "set os \<subseteq> set (openSet s)"
    "distinct (openSet s) \<longrightarrow> distinct os \<and> c \<notin> set os"
    unfolding wl_visit_def by blast
  have d: "distinct os" "c \<notin> set os" using *(4) assms(1) by (simp_all add: term_inv_def)
  have c: "c \<in> cells (grid s)" using *(2) assms(1) by (auto simp: term_inv_def)
  have wf: "wf_grid (heap s') (grid s')"
    using assms(1) wf_grid_frame[of "heap s'" "heap s" "grid s"] by (simp add: * term_inv_def)
  have os_unv: "\<forall>a\<in>set os. \<not> isVisited (heap s' a)"
  proof (cases "pc s = YieldStart")
    case True
    then obtain a where "openSet s = [a]" using assms(1) by (auto simp: term_inv_def pc_cells_def)
    then have "os = []" using *(2,3) d(2) by (cases os) auto
    then show ?thesis by simp
  next
    case False
    then show ?thesis using assms(1) *(3) d(2) by (auto simp: *(1) term_inv_def)
  qed
  have ti: "term_inv s'"
    using wf ri d(1) *(3) assms(1) os_unv c
    by (auto simp: term_inv_def pc_cells_def *(1))
  have sub: "unvisited s' \<subseteq> unvisited s" by (auto simp: unvisited_def *(1))
  have "(term_measure s', term_measure s) \<in> less_than <*lex*> less_than"
  proof (cases "pc s = YieldStart")
    case True
    have "card (unvisited s') \<le> card (unvisited s)" using sub by (simp add: card_mono)
    then show ?thesis using True by (simp add: term_measure_def *(1))
  next
    case False
    then have "\<not> isVisited (heap s c)" using assms(1) *(2) by (simp add: term_inv_def)
    then have "c \<in> unvisited s" "c \<notin> unvisited s'" using c by (simp_all add: unvisited_def *(1))
    then have "unvisited s' \<subset> unvisited s" using sub by blast
    then have "card (unvisited s') < card (unvisited s)" by (simp add: psubset_card_mono)
    then show ?thesis using False by (simp add: term_measure_def *(1))
  qed
  with ti show ?thesis by simp
qed

lemma term_step:
  assumes "term_inv s" "gen_next s = Inr (Some ev, s')"
  shows "term_inv s' \<and> (term_measure s', term_measure s) \<in> less_than <*lex*> less_than"
proof -
  have ri: "run_inv s'" using run_inv_step[OF _ assms(2)] assms(1) by (simp add: term_inv_def)
  from assms(2) show ?thesis
  proof (cases rule: step_cases)
    case init
    then show ?thesis using assms(1) by (simp add: term_inv_def run_inv_def pc_ok_def)
  next
    case (relax c nbs pre nb rest)
    from term_step_relax[OF assms(1) relax(1,2,4,6) ri] show ?thesis .
  next
    case loop
    from while_loop_char[OF loop(2)] show ?thesis
    proof (elim disjE)
      assume "wl_visit s (Some ev) s'"
      from term_step_visit[OF assms(1) this ri] show ?thesis .
    qed (simp_all add: wl_empty_def wl_inf_def)
  qed simp_all
qed

lemma done_returned:
  assumes "gen_next s = Inr (None, s')"
  shows "\<exists>e. pc s' = Returned e"
  using assms
proof (cases rule: step_cases)
  case init
  then show ?thesis using assms by (simp add: gen_next_NotStarted)
next
  case loop
  from while_loop_char[OF loop(2)] show ?thesis
    by (auto simp: wl_empty_def wl_inf_def wl_visit_def)
qed auto

lemma term_drive:
  assumes "term_inv s"
  shows "\<exists>n evs s' e. drive n s = Inr (evs, s') \<and> pc s' = Returned e"
proof -
  have wf: "wf (inv_image (less_than <*lex*> less_than) term_measure)"
    by (intro wf_inv_image wf_lex_prod wf_less_than)
  from wf assms show ?thesis
  proof (induction s rule: wf_induct_rule)
  case (less s)
  from gen_next_total[OF less.prems] obtain ev s1 where n: "gen_next s = Inr (ev, s1)" by blast
  show ?case
  proof (cases ev)
    case None
    from done_returned[OF n[unfolded None]] obtain e where "pc s1 = Returned e" ..
    moreover have "drive (Suc 0) s = Inr ([], s1)" using n None by simp
    ultimately show ?thesis by blast
  next
    case (Some e)
    from term_step[OF less.prems n[unfolded Some]]
    have ti: "term_inv s1" and m: "(term_measure s1, term_measure s) \<in> less_than <*lex*> less_than"
      by simp_all
    from m have "(s1, s) \<in> inv_image (less_than <*lex*> less_than) term_measure" by simp
    from less.IH[OF this ti] obtain k evs s' x where "drive k s1 = Inr (evs, s')" "pc s' = Returned x"
      by blast
    then have "drive (Suc k) s = Inr (e # evs, s')" "pc s' = Returned x"
      using n Some by (simp_all add: bind_err_def)
    then show ?thesis by blast
  qed
  qed
qed

section \<open>The run ends\<close>

lemma drive_invariant:
  assumes "drive n s = Inr (evs, s')" "P s"
    and "\<And>s ev s'. P s \<Longrightarrow> gen_next s = Inr (ev, s') \<Longrightarrow> P s'"
  shows "P s'"
  using assms(1,2)
proof (induction n arbitrary: s evs)
  case 0
  then show ?case by simp
next
  case (Suc n)
  show ?case
  proof (cases "gen_next s")
    case (Inl e)
    then show ?thesis using Suc.prems by simp
  next
    case (Inr p)
    obtain ev s1 where p: "p = (ev, s1)" by (cases p)
    have P1: "P s1" using assms(3)[OF Suc.prems(2)] Inr p by simp
    show ?thesis
    proof (cases ev)
      case None
      then show ?thesis using Suc.prems(1) Inr p P1 by simp
    next
      case (Some e)
      then obtain evs' where "drive n s1 = Inr (evs', s')"
        using Suc.prems(1) Inr p by (auto simp: bind_err_def split: sum.splits)
      from Suc.IH[OF this P1] show ?thesis .
    qed
  qed
qed

lemma fin_inv_step:
  assumes "fin_inv s" "gen_next s = Inr (ev, s')"
  shows "fin_inv s'"
  using assms(2)
proof (cases rule: step_cases)
  case init
  then show ?thesis using assms(2) by (simp add: gen_next_NotStarted fin_inv_def)
next
  case loop
  from while_loop_char[OF loop(2)] show ?thesis
    by (auto simp: wl_empty_def wl_inf_def wl_visit_def fin_inv_def)
qed (use assms(1) in \<open>auto simp: fin_inv_def\<close>)

lemma yield_event:
  assumes "gen_next s = Inr (Some ev, s1)"
  shows "(\<forall>e. pc s1 \<noteq> Returned e) \<and> pc s1 \<noteq> NotStarted
         \<and> (\<forall>c. pc s1 = YieldVisited c \<longleftrightarrow> ev = \<lparr>nodes = [c], type = visited\<rparr>)"
  using assms
proof (cases rule: step_cases)
  case init
  then show ?thesis using assms by (auto simp: gen_next_NotStarted)
next
  case loop
  from while_loop_char[OF loop(2)] show ?thesis
    by (auto simp: wl_empty_def wl_inf_def wl_visit_def)
qed auto

lemma done_goal:
  assumes "gen_next s = Inr (None, s')" "pc s' = Returned GoalReached"
  shows "pc s = Returned GoalReached \<or> pc s = YieldVisited (finishNode s)"
  using assms(1)
proof (cases rule: step_cases)
  case init
  then show ?thesis using assms(1) by (simp add: gen_next_NotStarted)
next
  case loop
  from while_loop_char[OF loop(2)] show ?thesis using assms(2)
    by (auto simp: wl_empty_def wl_inf_def wl_visit_def)
qed (use assms(2) in auto)

lemma goal_reached_last:
  assumes "drive n s = Inr (evs, s')" "pc s' = Returned GoalReached"
  shows "(evs = [] \<and> (pc s = Returned GoalReached \<or> pc s = YieldVisited (finishNode s)))
         \<or> (evs \<noteq> [] \<and> last evs = \<lparr>nodes = [finishNode s], type = visited\<rparr>)"
  using assms
proof (induction n arbitrary: s evs)
  case 0
  then show ?case by simp
next
  case (Suc n)
  show ?case
  proof (cases "gen_next s")
    case (Inl e)
    then show ?thesis using Suc.prems by simp
  next
    case (Inr p)
    obtain ev s1 where p: "p = (ev, s1)" by (cases p)
    show ?thesis
    proof (cases ev)
      case None
      then have "evs = []" "s1 = s'" using Suc.prems(1) Inr p by simp_all
      then show ?thesis using done_goal[of s s'] Inr p None Suc.prems(2) by simp
    next
      case (Some e)
      then obtain evs' where d: "drive n s1 = Inr (evs', s')" and evs: "evs = e # evs'"
        using Suc.prems(1) Inr p by (auto simp: bind_err_def split: sum.splits)
      have n: "gen_next s = Inr (Some e, s1)" using Inr p Some by simp
      have f: "finishNode s1 = finishNode s" using step_frame[OF n, of 0] by simp
      from Suc.IH[OF d Suc.prems(2)] yield_event[OF n] show ?thesis
        unfolding evs f by auto
    qed
  qed
qed

lemma first_step_term_inv:
  assumes "wf_grid h g" "st \<in> cells g"
  shows "\<exists>s1. gen_next (astarGenerator g st fn h) = Inr (Some \<lparr>nodes = [st], type = opened\<rparr>, s1)
           \<and> term_inv s1 \<and> fin_inv s1 \<and> pc s1 = YieldStart"
proof -
  let ?s0 = "astarGenerator g st fn h"
  have p0: "pc ?s0 = NotStarted" by (simp add: astarGenerator_def)
  obtain ev s1 where n: "gen_next ?s0 = Inr (ev, s1)" by (auto simp: gen_next_def p0 Let_def)
  note f = gen_next_NotStarted[OF p0, THEN iffD1, OF n]
  have ev: "ev = Some \<lparr>nodes = [st], type = opened\<rparr>" using f by (simp add: astarGenerator_def)
  have s1: "grid s1 = g" "openSet s1 = [st]" "pc s1 = YieldStart"
    "\<And>a. row (heap s1 a) = row (h a)" "\<And>a. col (heap s1 a) = col (h a)"
    using f by (simp_all add: astarGenerator_def)
  have wf: "wf_grid (heap s1) (grid s1)"
    using assms(1) wf_grid_frame[of "heap s1" h g] s1 by simp
  have "term_inv s1"
    using wf run_inv_first[OF p0 n] s1(1,2,3) assms(2) by (simp add: term_inv_def pc_cells_def)
  moreover have "fin_inv s1" using s1(3) by (simp add: fin_inv_def)
  ultimately show ?thesis using n ev s1(3) by blast
qed

lemma run_ends:
  assumes "wf_grid h g" "st \<in> cells g"
  shows "\<exists>n evs s'. drive n (astarGenerator g st fn h) = Inr (evs, s')
           \<and> ((pc s' = Returned GoalReached \<and> evs \<noteq> []
                 \<and> last evs = \<lparr>nodes = [fn], type = visited\<rparr>)
                \<or> (pc s' = Returned OpenSetEmpty \<and> openSet s' = []))"
proof -
  let ?s0 = "astarGenerator g st fn h"
  from first_step_term_inv[OF assms, of fn] obtain s1 where
    n: "gen_next ?s0 = Inr (Some \<lparr>nodes = [st], type = opened\<rparr>, s1)"
    and ti: "term_inv s1" and fi: "fin_inv s1" by blast
  from term_drive[OF ti] obtain k evs s' e where
    d: "drive k s1 = Inr (evs, s')" and e: "pc s' = Returned e" by blast
  have d0: "drive (Suc k) ?s0 = Inr (\<lparr>nodes = [st], type = opened\<rparr> # evs, s')"
    using n d by (simp add: bind_err_def)
  have ri: "run_inv s'"
    using drive_invariant[OF d, of run_inv] ti run_inv_step by (auto simp: term_inv_def)
  have fi': "fin_inv s'"
    using drive_invariant[OF d, of fin_inv] fi fin_inv_step by blast
  have "e \<noteq> InfiniteDistance" using ri e by (simp add: run_inv_def pc_ok_def)
  then consider (goal) "e = GoalReached" | (empty) "e = OpenSetEmpty" by (cases e) auto
  then show ?thesis
  proof cases
    case goal
    from goal_reached_last[OF d0] e goal
    have "last (\<lparr>nodes = [st], type = opened\<rparr> # evs) = \<lparr>nodes = [fn], type = visited\<rparr>"
      by (simp add: astarGenerator_def)
    then show ?thesis using d0 e goal by blast
  next
    case empty
    then have "openSet s' = []" using fi' e by (simp add: fin_inv_def)
    then show ?thesis using d0 e empty by blast
  qed
qed

text \<open>Claim C7. On a well-formed grid with the start node in it, the driver reaches the
  end of the generator after finitely many calls of \<open>next()\<close>, without an exception: the
  run ends either right after the VISITED event of the goal, or with the open set empty.\<close>

theorem run_terminates:
  assumes "wf_grid h g" "st \<in> cells g"
  shows "\<exists>n evs s'. drive n (astarGenerator g st fn h) = Inr (evs, s')
           \<and> ((pc s' = Returned GoalReached \<and> evs \<noteq> []
                 \<and> last evs = \<lparr>nodes = [fn], type = visited\<rparr>)
                \<or> (pc s' = Returned OpenSetEmpty \<and> openSet s' = []))"
  using assms by (rule run_ends)

theorem run_terminates_witness:
  "wf_grid (cleanHeap 3 [1]) (grid_cells 1 3) \<and> 0 \<in> cells (grid_cells 1 3)
   \<and> (\<exists>n evs s'. drive n corridor = Inr (evs, s')
           \<and> ((pc s' = Returned GoalReached \<and> evs \<noteq> []
                 \<and> last evs = \<lparr>nodes = [2], type = visited\<rparr>)
                \<or> (pc s' = Returned OpenSetEmpty \<and> openSet s' = [])))"
proof -
  have a: "wf_grid (cleanHeap 3 [1]) (grid_cells 1 3)" by code_simp
  have b: "0 \<in> cells (grid_cells 1 3)" by code_simp
  from run_terminates[OF a b, of 2] a b show ?thesis unfolding corridor_def by blast
qed

section \<open>Walls between start and goal\<close>

lemma absdiff_simps [simp]:
  "absdiff a a = 0" "absdiff (a + 1) a = 1" "absdiff a (a + 1) = 1"
  "0 < a \<Longrightarrow> absdiff (a - 1) a = 1" "0 < a \<Longrightarrow> absdiff a (a - 1) = 1"
  by (simp_all add: absdiff_def)

lemma neighbors_adjacent:
  assumes "wf_grid h g" "c \<in> cells g" "b \<in> set (neighbors g (row (h c)) (col (h c)))"
  shows "b \<in> cells g \<and> adjacent h c b"
proof -
  define r k where "r = row (h c)" and "k = col (h c)"
  from wf_grid_cell[OF assms(1,2)] have rk: "r < length g" "k < length (hd g)"
    by (simp_all add: r_def k_def)
  from assms(3) consider
    (up) "0 < r" "b = g ! (r - 1) ! k"
    | (down) "r < length g - 1" "b = g ! (r + 1) ! k"
    | (left) "0 < k" "b = g ! r ! (k - 1)"
    | (right) "k < length (hd g) - 1" "b = g ! r ! (k + 1)"
    unfolding neighbors_def r_def[symmetric] k_def[symmetric]
    by (auto split: if_splits)
  then show ?thesis
  proof cases
    case up
    have "r - 1 < length g" using rk by simp
    from wf_grid_at[OF assms(1) this rk(2)] up show ?thesis
      by (simp add: adjacent_def absdiff_def r_def[symmetric] k_def[symmetric])
  next
    case down
    have "r + 1 < length g" using down(1) by simp
    from wf_grid_at[OF assms(1) this rk(2)] down show ?thesis
      by (simp add: adjacent_def absdiff_def r_def[symmetric] k_def[symmetric])
  next
    case left
    have "k - 1 < length (hd g)" using rk by simp
    from wf_grid_at[OF assms(1) rk(1) this] left show ?thesis
      by (simp add: adjacent_def absdiff_def r_def[symmetric] k_def[symmetric])
  next
    case right
    have "k + 1 < length (hd g)" using right(1) by simp
    from wf_grid_at[OF assms(1) rk(1) this] right show ?thesis
      by (simp add: adjacent_def absdiff_def r_def[symmetric] k_def[symmetric])
  qed
qed

lemma same_layout_wf: "same_layout h h' \<Longrightarrow> wf_grid h' g = wf_grid h g"
  by (rule wf_grid_frame) (simp_all add: same_layout_def)

lemma same_layout_step:
  assumes "same_layout h (heap s)" "gen_next s = Inr (ev, s')"
  shows "same_layout h (heap s')"
  unfolding same_layout_def
proof
  fix a
  from step_frame[OF assms(2), of a] assms(1)
  show "row (heap s' a) = row (h a) \<and> col (heap s' a) = col (h a) \<and> isWall (heap s' a) = isWall (h a)"
    by (simp add: same_layout_def)
qed

lemma near_popped:
  assumes "near h s a" "\<not> isWall (h a)" "startNode s \<in> cells (grid s)"
  shows "reachable h (grid s) (startNode s) a"
  using assms unfolding near_def by (auto intro: reachable.intros)

lemma resumes_reach:
  assumes "reach_inv h s" "resumes s c nbs"
  shows "reachable h (grid s) (startNode s) c" "\<forall>b\<in>set nbs. b \<in> cells (grid s) \<and> adjacent h c b"
proof -
  from assms(2) consider
    (a) "pc s = YieldVisited c" "getUnvisitedNeighbors (heap s) c (grid s) = Inr nbs"
    | (b) "pc s = YieldOpen c nbs"
    unfolding resumes_def by blast
  then have "reachable h (grid s) (startNode s) c \<and> (\<forall>b\<in>set nbs. b \<in> cells (grid s) \<and> adjacent h c b)"
  proof cases
    case a
    have sl: "same_layout h (heap s)" and wf: "wf_grid h (grid s)"
      and r: "reachable h (grid s) (startNode s) c"
      using assms(1) a(1) by (simp_all add: reach_inv_def reach_pc_def)
    have c: "c \<in> cells (grid s)" using r by cases auto
    have wf': "wf_grid (heap s) (grid s)" using wf same_layout_wf[OF sl] by simp
    have rc: "row (heap s c) = row (h c)" "col (heap s c) = col (h c)"
      using sl by (simp_all add: same_layout_def)
    have "set nbs \<subseteq> set (neighbors (grid s) (row (h c)) (col (h c)))"
      using getUnvisitedNeighbors_wf[OF wf' c] a(2) rc by auto
    then show ?thesis using neighbors_adjacent[OF wf c] r by blast
  next
    case b
    then show ?thesis using assms(1) by (simp add: reach_inv_def reach_pc_def)
  qed
  then show "reachable h (grid s) (startNode s) c" "\<forall>b\<in>set nbs. b \<in> cells (grid s) \<and> adjacent h c b"
    by blast+
qed

lemma reach_inv_step:
  assumes "reach_inv h s" "gen_next s = Inr (ev, s')"
  shows "reach_inv h s'
         \<and> (\<forall>a. ev = Some \<lparr>nodes = [a], type = visited\<rparr> \<longrightarrow> reachable h (grid s) (startNode s) a)"
proof -
  have sl: "same_layout h (heap s)" and wf: "wf_grid h (grid s)" and st: "startNode s \<in> cells (grid s)"
    and os: "\<forall>a\<in>set (openSet s). near h s a"
    using assms(1) by (simp_all add: reach_inv_def)
  have sl': "same_layout h (heap s')" using same_layout_step[OF sl assms(2)] .
  have fr: "grid s' = grid s" "startNode s' = startNode s" using step_frame[OF assms(2), of 0] by simp_all
  from assms(2) show ?thesis
  proof (cases rule: step_cases)
    case init
    then have "openSet s' = [startNode s]" "pc s' = YieldStart" "ev = Some \<lparr>nodes = [startNode s], type = opened\<rparr>"
      using assms(2) by (simp_all add: gen_next_NotStarted)
    then show ?thesis using sl' wf st fr by (simp add: reach_inv_def reach_pc_def near_def)
  next
    case goal
    then show ?thesis using assms(1) by (simp add: reach_inv_def reach_pc_def near_def)
  next
    case (returned e)
    then show ?thesis using assms(1) by simp
  next
    case (relax c nbs pre nb rest)
    note rr = resumes_reach[OF assms(1) relax(1)]
    have "near h s' nb" using rr relax(2) fr by (auto simp: near_def)
    moreover have "\<forall>a\<in>set (openSet s). near h s' a" using os fr by (simp add: near_def)
    ultimately have "\<forall>a\<in>set (openSet s'). near h s' a" by (simp add: relax(6) pushed_set)
    moreover have "reach_pc h s'" using rr relax(2) by (simp add: reach_pc_def relax(6))
    ultimately show ?thesis using sl' wf st fr relax(5) by (simp add: reach_inv_def)
  next
    case loop
    from while_loop_char[OF loop(2)] show ?thesis
    proof (elim disjE)
      assume "wl_empty s ev s'"
      then show ?thesis using sl' wf st fr by (simp add: wl_empty_def reach_inv_def reach_pc_def)
    next
      assume "wl_inf s ev s'"
      then obtain os where "ev = None" "s' = s\<lparr>openSet := os, pc := Returned InfiniteDistance\<rparr>"
        "set os \<subseteq> set (openSet s)" unfolding wl_inf_def by blast
      then show ?thesis using sl' wf st fr os by (auto simp: reach_inv_def reach_pc_def near_def)
    next
      assume "wl_visit s ev s'"
      then obtain c os' where *: "ev = Some \<lparr>nodes = [c], type = visited\<rparr>"
        "s' = s\<lparr>openSet := os', heap := (heap s)(c := (heap s c)\<lparr>isVisited := True\<rparr>),
                pc := YieldVisited c\<rparr>"
        "c \<in> set (openSet s)" "\<not> isWall (heap s c)" "set os' \<subseteq> set (openSet s)"
        unfolding wl_visit_def by blast
      have "\<not> isWall (h c)" using *(4) sl by (simp add: same_layout_def)
      from near_popped[of h s c, OF _ this st] os *(3)
      have r: "reachable h (grid s) (startNode s) c" by blast
      have "\<forall>a\<in>set (openSet s'). near h s' a" using os *(5) by (auto simp: *(2) near_def)
      moreover have "reach_pc h s'" using r by (simp add: reach_pc_def *(2))
      ultimately show ?thesis using sl' wf st fr r *(1) by (simp add: reach_inv_def)
    qed
  qed
qed

lemma reach_drive:
  assumes "drive n s = Inr (evs, s')" "reach_inv h s" "\<lparr>nodes = [a], type = visited\<rparr> \<in> set evs"
  shows "reachable h (grid s) (startNode s) a"
  using assms
proof (induction n arbitrary: s evs)
  case 0
  then show ?case by simp
next
  case (Suc n)
  show ?case
  proof (cases "gen_next s")
    case (Inl e)
    then show ?thesis using Suc.prems by simp
  next
    case (Inr p)
    obtain ev s1 where p: "p = (ev, s1)" by (cases p)
    have n: "gen_next s = Inr (ev, s1)" using Inr p by simp
    note st = reach_inv_step[OF Suc.prems(2) n]
    have fr: "grid s1 = grid s" "startNode s1 = startNode s" using step_frame[OF n, of 0] by simp_all
    show ?thesis
    proof (cases ev)
      case None
      then show ?thesis using Suc.prems(1,3) n by simp
    next
      case (Some e)
      then obtain evs' where d: "drive n s1 = Inr (evs', s')" and evs: "evs = e # evs'"
        using Suc.prems(1) n by (auto simp: bind_err_def split: sum.splits)
      show ?thesis
      proof (cases "e = \<lparr>nodes = [a], type = visited\<rparr>")
        case True
        then show ?thesis using st Some by simp
      next
        case False
        then have "\<lparr>nodes = [a], type = visited\<rparr> \<in> set evs'" using Suc.prems(3) evs by simp
        from Suc.IH[OF d _ this] st fr show ?thesis by simp
      qed
    qed
  qed
qed

text \<open>Claim C4. On a well-formed grid whose goal is not reachable from the start through
  cells that are no walls, the run ends with the open set empty, and the goal receives no
  VISITED event.\<close>

theorem blocked_run_fails:
  assumes "wf_grid h g" "st \<in> cells g" "\<not> reachable h g st fn"
  shows "\<exists>n evs s'. drive n (astarGenerator g st fn h) = Inr (evs, s')
           \<and> pc s' = Returned OpenSetEmpty \<and> openSet s' = []
           \<and> \<lparr>nodes = [fn], type = visited\<rparr> \<notin> set evs"
proof -
  let ?s0 = "astarGenerator g st fn h"
  from run_ends[OF assms(1,2), of fn] obtain n evs s' where
    d: "drive n ?s0 = Inr (evs, s')"
    and e: "(pc s' = Returned GoalReached \<and> evs \<noteq> [] \<and> last evs = \<lparr>nodes = [fn], type = visited\<rparr>)
            \<or> (pc s' = Returned OpenSetEmpty \<and> openSet s' = [])"
    by blast
  have ri: "reach_inv h ?s0"
    using assms(1,2) by (simp add: reach_inv_def same_layout_def astarGenerator_def reach_pc_def)
  have nv: "\<lparr>nodes = [fn], type = visited\<rparr> \<notin> set evs"
  proof
    assume "\<lparr>nodes = [fn], type = visited\<rparr> \<in> set evs"
    from reach_drive[OF d ri this] assms(3) show False by (simp add: astarGenerator_def)
  qed
  have "\<not> (evs \<noteq> [] \<and> last evs = \<lparr>nodes = [fn], type = visited\<rparr>)"
    using nv last_in_set by metis
  with e have "pc s' = Returned OpenSetEmpty \<and> openSet s' = []" by blast
  with d nv show ?thesis by blast
qed

lemma blocked3_col0:
  assumes "reachable (cleanHeap 3 [1, 4, 7]) (grid_cells 3 3) 0 a"
  shows "col (cleanHeap 3 [1, 4, 7] a) = 0"
  using assms
proof (induction rule: reachable.induct)
  case start
  show ?case by (simp add: cleanHeap_def resetNode_def)
next
  case (step a b)
  have b9: "b < 9" using step.hyps(2) by (auto simp: cells_def grid_cells_def)
  have nw: "b \<noteq> 1 \<and> b \<noteq> 4 \<and> b \<noteq> 7" using step.hyps(3) by (auto simp: cleanHeap_def resetNode_def)
  have "absdiff 0 (b mod 3) \<le> 1"
    using step.hyps(4) step.IH by (simp add: adjacent_def cleanHeap_def resetNode_def)
  then have "b mod 3 \<le> 1" by (simp add: absdiff_def split: if_splits)
  then have "b mod 3 = 0" using b9 nw by presburger
  then show ?case by (simp add: cleanHeap_def resetNode_def)
qed

theorem blocked_run_fails_witness:
  "wf_grid (cleanHeap 3 [1, 4, 7]) (grid_cells 3 3) \<and> 0 \<in> cells (grid_cells 3 3)
   \<and> \<not> reachable (cleanHeap 3 [1, 4, 7]) (grid_cells 3 3) 0 8
   \<and> (\<exists>n evs s'. drive n blocked3 = Inr (evs, s')
           \<and> pc s' = Returned OpenSetEmpty \<and> openSet s' = []
           \<and> \<lparr>nodes = [8], type = visited\<rparr> \<notin> set evs)"
proof -
  have a: "wf_grid (cleanHeap 3 [1, 4, 7]) (grid_cells 3 3)" by code_simp
  have b: "0 \<in> cells (grid_cells 3 3)" by code_simp
  have c: "\<not> reachable (cleanHeap 3 [1, 4, 7]) (grid_cells 3 3) 0 8"
  proof
    assume "reachable (cleanHeap 3 [1, 4, 7]) (grid_cells 3 3) 0 8"
    from blocked3_col0[OF this] show False by (simp add: cleanHeap_def resetNode_def)
  qed
  from blocked_run_fails[OF a b c] a b c show ?thesis unfolding blocked3_def by blast
qed

section \<open>Distances on the grid\<close>

lemma heuristic_md: "heuristic (h a) (h b) = enat (md h a b)"
  by (simp add: heuristic_def md_def)

lemma md_same_layout: "same_layout h h' \<Longrightarrow> md h' a b = md h a b"
  by (simp add: md_def same_layout_def)

lemma absdiff_triangle: "absdiff a c \<le> absdiff a b + absdiff b c"
  by (auto simp: absdiff_def)

lemma md_triangle: "md h a c \<le> md h a b + md h b c"
  unfolding md_def
  using absdiff_triangle[of "row (h a)" "row (h c)" "row (h b)"]
    absdiff_triangle[of "col (h a)" "col (h c)" "col (h b)"]
  by linarith

lemma md_self [simp]: "md h a a = 0"
  by (simp add: md_def)

lemma md_adjacent: "adjacent h a b \<Longrightarrow> md h a b = 1"
  by (simp add: adjacent_def md_def)

lemma md_zero_cell:
  assumes "wf_grid h g" "a \<in> cells g" "b \<in> cells g" "md h a b = 0"
  shows "a = b"
proof -
  from assms(4) have "row (h a) = row (h b)" "col (h a) = col (h b)"
    by (auto simp: md_def absdiff_def split: if_splits)
  then show ?thesis using wf_grid_cell[OF assms(1,2)] wf_grid_cell[OF assms(1,3)] by metis
qed

lemma absdiff_closer:
  "b < a \<Longrightarrow> absdiff (a - 1) b + 1 = absdiff a b"
  "a < b \<Longrightarrow> absdiff (a + 1) b + 1 = absdiff a b"
  by (auto simp: absdiff_def)

text \<open>A cell other than the goal has a neighbour that is one step closer to the goal.\<close>

lemma closer_neighbor:
  assumes "wf_grid h g" "v \<in> cells g" "t \<in> cells g" "v \<noteq> t"
  shows "\<exists>m\<in>set (neighbors g (row (h v)) (col (h v))). m \<in> cells g \<and> md h m t + 1 = md h v t"
proof -
  define r k where "r = row (h v)" and "k = col (h v)"
  define r' k' where "r' = row (h t)" and "k' = col (h t)"
  have v: "r < length g" "k < length (hd g)" "g ! r ! k = v"
    using wf_grid_cell[OF assms(1,2)] by (simp_all add: r_def k_def)
  have t: "r' < length g" "k' < length (hd g)" "g ! r' ! k' = t"
    using wf_grid_cell[OF assms(1,3)] by (simp_all add: r'_def k'_def)
  have ne: "r \<noteq> r' \<or> k \<noteq> k'" using v(3) t(3) assms(4) by metis
  consider (up) "r' < r" | (down) "r < r'" | (left) "r = r'" "k' < k" | (right) "r = r'" "k < k'"
    using ne by linarith
  then show ?thesis
  proof cases
    case up
    let ?m = "g ! (r - 1) ! k"
    have "r - 1 < length g" using v(1) by linarith
    note m = wf_grid_at[OF assms(1) this v(2)]
    have "?m \<in> set (neighbors g r k)" using up by (simp add: neighbors_def)
    moreover have "md h ?m t + 1 = md h v t"
    proof -
      have "md h ?m t = absdiff (r - 1) r' + absdiff k k'" using m(2,3) by (simp add: md_def r'_def k'_def)
      moreover have "md h v t = absdiff r r' + absdiff k k'"
        by (simp add: md_def r_def k_def r'_def k'_def)
      ultimately show ?thesis using absdiff_closer(1)[OF up] by linarith
    qed
    ultimately show ?thesis using m(1) unfolding r_def k_def by blast
  next
    case down
    let ?m = "g ! (r + 1) ! k"
    have lt: "r + 1 < length g" using t(1) down by linarith
    note m = wf_grid_at[OF assms(1) this v(2)]
    have "?m \<in> set (neighbors g r k)" using lt by (auto simp: neighbors_def)
    moreover have "md h ?m t + 1 = md h v t"
    proof -
      have "md h ?m t = absdiff (r + 1) r' + absdiff k k'" using m(2,3) by (simp add: md_def r'_def k'_def)
      moreover have "md h v t = absdiff r r' + absdiff k k'"
        by (simp add: md_def r_def k_def r'_def k'_def)
      ultimately show ?thesis using absdiff_closer(2)[OF down] by linarith
    qed
    ultimately show ?thesis using m(1) unfolding r_def k_def by blast
  next
    case left
    let ?m = "g ! r ! (k - 1)"
    have "k - 1 < length (hd g)" using v(2) by linarith
    note m = wf_grid_at[OF assms(1) v(1) this]
    have "?m \<in> set (neighbors g r k)" using left by (simp add: neighbors_def)
    moreover have "md h ?m t + 1 = md h v t"
    proof -
      have "md h ?m t = absdiff r r' + absdiff (k - 1) k'" using m(2,3) by (simp add: md_def r'_def k'_def)
      moreover have "md h v t = absdiff r r' + absdiff k k'"
        by (simp add: md_def r_def k_def r'_def k'_def)
      ultimately show ?thesis using absdiff_closer(1)[OF left(2)] by linarith
    qed
    ultimately show ?thesis using m(1) unfolding r_def k_def by blast
  next
    case right
    let ?m = "g ! r ! (k + 1)"
    have lt: "k + 1 < length (hd g)" using t(2) right by linarith
    note m = wf_grid_at[OF assms(1) v(1) this]
    have "?m \<in> set (neighbors g r k)" using lt by (auto simp: neighbors_def)
    moreover have "md h ?m t + 1 = md h v t"
    proof -
      have "md h ?m t = absdiff r r' + absdiff (k + 1) k'" using m(2,3) by (simp add: md_def r'_def k'_def)
      moreover have "md h v t = absdiff r r' + absdiff k k'"
        by (simp add: md_def r_def k_def r'_def k'_def)
      ultimately show ?thesis using absdiff_closer(2)[OF right(2)] by linarith
    qed
    ultimately show ?thesis using m(1) unfolding r_def k_def by blast
  qed
qed

section \<open>The frontier on an open grid\<close>

lemma opt_invD:
  assumes "opt_inv h s"
  shows "term_inv s" "reach_inv h s" "finishNode s \<in> cells (grid s)" "open_grid h (grid s)"
    "scores_ok h s" "frontier_ok h s" "expanded_ok h s" "chain_ok s" "goal_ok s"
  using assms unfolding opt_inv_def by blast+

lemma opt_inv_basics:
  assumes "opt_inv h s"
  shows "same_layout h (heap s)" "wf_grid h (grid s)" "startNode s \<in> cells (grid s)"
    "run_inv s" "set (openSet s) \<subseteq> cells (grid s)" "wf_grid (heap s) (grid s)"
  using opt_invD(1,2)[OF assms] unfolding term_inv_def reach_inv_def by blast+

lemma scores_okD:
  assumes "scores_ok h s" "a \<in> cells (grid s)" "gScore (heap s a) \<noteq> \<infinity>"
  shows "hScore (heap s a) = enat (md h a (finishNode s))"
    "fScore (heap s a) = gScore (heap s a) + enat (md h a (finishNode s))"
    "enat (md h (startNode s) a) \<le> gScore (heap s a)"
  using assms unfolding scores_ok_def by blast+

lemma frontier_okD:
  assumes "frontier_ok h s"
  shows "a \<in> set (openSet s) \<Longrightarrow> \<not> isVisited (heap s a)"
    "a \<in> cells (grid s) \<Longrightarrow> gScore (heap s a) \<noteq> \<infinity> \<Longrightarrow> \<not> isVisited (heap s a)
       \<Longrightarrow> a \<in> set (openSet s)"
    "a \<in> cells (grid s) \<Longrightarrow> isVisited (heap s a) \<Longrightarrow> gScore (heap s a) \<noteq> \<infinity>"
    "a \<in> cells (grid s) \<Longrightarrow> isVisited (heap s a)
       \<Longrightarrow> fScore (heap s a) = enat (md h (startNode s) (finishNode s))"
  using assms unfolding frontier_ok_def by blast+

lemma expanded_okD:
  assumes "expanded_ok h s" "v \<in> cells (grid s)" "isVisited (heap s v)"
    "m \<in> set (neighbors (grid s) (row (h v)) (col (h v)))"
  shows "isVisited (heap s m) \<or> m \<in> pending s v \<or> gScore (heap s m) \<le> gScore (heap s v) + 1"
  using assms unfolding expanded_ok_def by blast

lemma chain_okD:
  assumes "chain_ok s"
  shows "previousNode (heap s (startNode s)) = None" "gScore (heap s (startNode s)) = 0"
    "a \<in> cells (grid s) \<Longrightarrow> a \<noteq> startNode s \<Longrightarrow> gScore (heap s a) \<noteq> \<infinity> \<Longrightarrow>
       \<exists>p\<in>cells (grid s). previousNode (heap s a) = Some p \<and> isVisited (heap s p)
               \<and> gScore (heap s a) = gScore (heap s p) + 1"
  using assms unfolding chain_ok_def by blast+

lemma goal_okD:
  assumes "goal_ok s"
  shows "pc s \<noteq> Returned e"
    "isVisited (heap s (finishNode s)) \<Longrightarrow> pc s = YieldVisited (finishNode s)"
    "pc s = YieldStart \<Longrightarrow> openSet s = [startNode s]"
    "pc s \<noteq> YieldStart \<Longrightarrow> isVisited (heap s (startNode s))"
  using assms unfolding goal_ok_def by (blast, blast, metis, metis)

lemma not_improves_le:
  "\<not> improves s c m \<Longrightarrow> gScore (heap s m) \<le> gScore (heap s c) + 1"
  by (simp add: improves_def)

text \<open>When the \<open>for\<close> loop of the node being expanded is over, every neighbour of a visited
  node is visited or has a gScore at most one above it.\<close>

lemma resumes_neighbors:
  assumes "opt_inv h s" "resumes s c nbs" "m \<in> set (neighbors (grid s) (row (h c)) (col (h c)))"
    "m \<in> pending s c"
  shows "isVisited (heap s m) \<or> m \<in> set nbs"
proof -
  from assms(2) consider
    (a) "pc s = YieldVisited c" "getUnvisitedNeighbors (heap s) c (grid s) = Inr nbs"
    | (b) "pc s = YieldOpen c nbs"
    unfolding resumes_def by blast
  then show ?thesis
  proof cases
    case a
    have c: "c \<in> cells (grid s)"
      using opt_invD(1)[OF assms(1)] a(1) by (simp add: term_inv_def pc_cells_def)
    have rc: "row (heap s c) = row (h c)" "col (heap s c) = col (h c)"
      using opt_inv_basics(1)[OF assms(1)] by (simp_all add: same_layout_def)
    have "nbs = filter (\<lambda>b. \<not> isVisited (heap s b)) (neighbors (grid s) (row (h c)) (col (h c)))"
      using getUnvisitedNeighbors_wf[OF opt_inv_basics(6)[OF assms(1)] c] a(2) rc by simp
    then show ?thesis using assms(3) by auto
  next
    case b
    then show ?thesis using assms(4) by (simp add: pending_def)
  qed
qed

lemma pending_current:
  assumes "m \<in> pending s v" "resumes s c nbs"
  shows "v = c"
  using assms by (auto simp: pending_def resumes_def split: if_splits)

lemma loops_expanded:
  assumes "opt_inv h s" "loops s" "v \<in> cells (grid s)" "isVisited (heap s v)"
    "m \<in> set (neighbors (grid s) (row (h v)) (col (h v)))"
  shows "isVisited (heap s m) \<or> gScore (heap s m) \<le> gScore (heap s v) + 1"
proof -
  from expanded_okD[OF opt_invD(7)[OF assms(1)] assms(3,4,5)]
  consider "isVisited (heap s m)" | (p) "m \<in> pending s v"
    | "gScore (heap s m) \<le> gScore (heap s v) + 1"
    by blast
  then show ?thesis
  proof cases
    case p
    from assms(2) have "pc s = YieldStart \<or> (\<exists>c nbs. resumes s c nbs \<and> (\<forall>x\<in>set nbs. \<not> improves s c x))"
      by (simp add: loops_def)
    then show ?thesis
    proof
      assume "pc s = YieldStart"
      then show ?thesis using p by (simp add: pending_def)
    next
      assume "\<exists>c nbs. resumes s c nbs \<and> (\<forall>x\<in>set nbs. \<not> improves s c x)"
      then obtain c nbs where r: "resumes s c nbs" and ni: "\<forall>x\<in>set nbs. \<not> improves s c x" by blast
      have vc: "v = c" using pending_current[OF p r] .
      from resumes_neighbors[OF assms(1) r assms(5)[unfolded vc] p[unfolded vc]]
      show ?thesis using ni not_improves_le vc by blast
    qed
  qed simp_all
qed

lemma loops_goal_unvisited:
  assumes "opt_inv h s" "loops s"
  shows "\<not> isVisited (heap s (finishNode s))"
proof
  assume "isVisited (heap s (finishNode s))"
  then have "pc s = YieldVisited (finishNode s)" using goal_okD(2)[OF opt_invD(9)[OF assms(1)]] by simp
  then show False using assms(2) by (auto simp: loops_def resumes_def)
qed

lemma score_lower_bound:
  assumes "opt_inv h s" "a \<in> cells (grid s)" "gScore (heap s a) = enat k"
  shows "fScore (heap s a) = enat (k + md h a (finishNode s))"
    and "md h (startNode s) (finishNode s) \<le> k + md h a (finishNode s)"
    and "md h (startNode s) a \<le> k"
proof -
  have "gScore (heap s a) \<noteq> \<infinity>" using assms(3) by simp
  from scores_okD(2,3)[OF opt_invD(5)[OF assms(1)] assms(2) this]
  have f: "fScore (heap s a) = enat k + enat (md h a (finishNode s))"
    and lb: "enat (md h (startNode s) a) \<le> enat k"
    using assms(3) by simp_all
  show "fScore (heap s a) = enat (k + md h a (finishNode s))" using f by simp
  show "md h (startNode s) a \<le> k" using lb by simp
  then show "md h (startNode s) (finishNode s) \<le> k + md h a (finishNode s)"
    using md_triangle[of h "startNode s" "finishNode s" a] by linarith
qed

lemma visited_scores:
  assumes "opt_inv h s" "v \<in> cells (grid s)" "isVisited (heap s v)"
  shows "\<exists>k. gScore (heap s v) = enat k
           \<and> k + md h v (finishNode s) = md h (startNode s) (finishNode s)"
proof -
  note fo = frontier_okD[OF opt_invD(6)[OF assms(1)]]
  have g: "gScore (heap s v) \<noteq> \<infinity>"
    and f: "fScore (heap s v) = enat (md h (startNode s) (finishNode s))"
    using fo(3,4)[OF assms(2,3)] by simp_all
  from g obtain k where k: "gScore (heap s v) = enat k" by auto
  from score_lower_bound(1)[OF assms(1,2) k] f show ?thesis using k by simp
qed

text \<open>So, whenever the main loop is about to take a node from the open set, the open set
  holds a node whose fScore is the distance from the start to the goal.\<close>

lemma frontier_near_visited:
  assumes "opt_inv h s" "loops s"
  shows "v \<in> cells (grid s) \<Longrightarrow> isVisited (heap s v) \<Longrightarrow>
         \<exists>m\<in>set (openSet s). fScore (heap s m) = enat (md h (startNode s) (finishNode s))"
proof (induction "md h v (finishNode s)" arbitrary: v rule: less_induct)
  case less
  let ?fn = "finishNode s" and ?st = "startNode s"
  have vf: "v \<noteq> ?fn" using loops_goal_unvisited[OF assms] less.prems(2) by auto
  from closer_neighbor[OF opt_inv_basics(2)[OF assms(1)] less.prems(1) opt_invD(3)[OF assms(1)] vf]
  obtain m where m: "m \<in> set (neighbors (grid s) (row (h v)) (col (h v)))" "m \<in> cells (grid s)"
    "md h m ?fn + 1 = md h v ?fn" by blast
  show ?case
  proof (cases "isVisited (heap s m)")
    case True
    have "md h m ?fn < md h v ?fn" using m(3) by simp
    from less.hyps[OF this m(2) True] show ?thesis .
  next
    case False
    from visited_scores[OF assms(1) less.prems] obtain k where
      k: "gScore (heap s v) = enat k" "k + md h v ?fn = md h ?st ?fn" by blast
    from loops_expanded[OF assms less.prems m(1)] False
    have "gScore (heap s m) \<le> enat k + 1" using k(1) by simp
    then obtain j where j: "gScore (heap s m) = enat j" "j \<le> k + 1"
      by (cases "gScore (heap s m)") (auto simp: one_enat_def)
    note sb = score_lower_bound[OF assms(1) m(2) j(1)]
    have "j + md h m ?fn = md h ?st ?fn" using sb(2) j(2) k(2) m(3) by linarith
    then have f: "fScore (heap s m) = enat (md h ?st ?fn)" using sb(1) by simp
    have "m \<in> set (openSet s)"
      using frontier_okD(2)[OF opt_invD(6)[OF assms(1)] m(2) _ False] j(1) by simp
    then show ?thesis using f by blast
  qed
qed

lemma frontier_exists:
  assumes "opt_inv h s" "loops s"
  shows "\<exists>m\<in>set (openSet s). fScore (heap s m) = enat (md h (startNode s) (finishNode s))"
proof (cases "pc s = YieldStart")
  case True
  then have os: "openSet s = [startNode s]" using goal_okD(3)[OF opt_invD(9)[OF assms(1)]] by simp
  have "gScore (heap s (startNode s)) = enat 0"
    using chain_okD(2)[OF opt_invD(8)[OF assms(1)]] by (simp add: zero_enat_def)
  from score_lower_bound(1)[OF assms(1) opt_inv_basics(3)[OF assms(1)] this]
  show ?thesis using os by simp
next
  case False
  then obtain c nbs where r: "resumes s c nbs" using assms(2) by (auto simp: loops_def)
  have c: "c \<in> cells (grid s)" using resumes_facts(1)[OF opt_invD(1)[OF assms(1)] r] .
  have "isVisited (heap s c)"
    using r opt_inv_basics(4)[OF assms(1)] by (auto simp: resumes_def run_inv_def pc_ok_def)
  from frontier_near_visited[OF assms c this] show ?thesis .
qed

section \<open>Relaxation on an open grid\<close>

lemma relaxed_scores:
  "gScore (relaxed s c nb) = gScore (heap s c) + 1"
  "hScore (relaxed s c nb) = heuristic (heap s nb) (heap s (finishNode s))"
  "fScore (relaxed s c nb) = gScore (heap s c) + 1 + heuristic (heap s nb) (heap s (finishNode s))"
  "previousNode (relaxed s c nb) = Some c"
  by (simp_all add: relaxed_def)

text \<open>Relaxing a neighbour keeps the invariant.\<close>

lemma opt_relax:
  assumes inv: "opt_inv h s" and r: "resumes s c nbs" and nbs: "nbs = pre @ nb # rest"
    and pre: "\<forall>x\<in>set pre. \<not> improves s c x" and imp: "improves s c nb"
    and s': "s' = s\<lparr>heap := (heap s)(nb := relaxed s c nb), openSet := pushed (openSet s) nb,
              pc := YieldOpen c rest\<rparr>"
    and ti: "term_inv s'" and ri: "reach_inv h s'"
  shows "opt_inv h s'"
proof -
  let ?st = "startNode s" and ?fn = "finishNode s" and ?g = "grid s"
  note rf = resumes_facts[OF opt_invD(1)[OF inv] r]
  note rr = resumes_reach[OF opt_invD(2)[OF inv] r]
  note sl = opt_inv_basics(1)[OF inv]
  have nb: "nb \<in> cells ?g" "\<not> isVisited (heap s nb)" "adjacent h c nb"
    using rf(2,3) rr(2) nbs by auto
  have cv: "isVisited (heap s c)" "gScore (heap s c) \<noteq> \<infinity>"
    using r opt_inv_basics(4)[OF inv] by (auto simp: resumes_def run_inv_def pc_ok_def)
  then obtain k where k: "gScore (heap s c) = enat k" by auto
  have nbc: "nb \<noteq> c" using nb(2) cv(1) by auto
  have g_nb: "gScore (heap s' nb) = enat (k + 1)"
    by (simp add: s' relaxed_scores k one_enat_def)
  have other: "\<And>a. a \<noteq> nb \<Longrightarrow> heap s' a = heap s a" by (simp add: s')
  have vis: "\<And>a. isVisited (heap s' a) = isVisited (heap s a)" by (simp add: s')
  have fr: "grid s' = ?g" "startNode s' = ?st" "finishNode s' = ?fn" by (simp_all add: s')
  have g_le: "\<And>a. gScore (heap s' a) \<le> gScore (heap s a)"
  proof -
    fix a show "gScore (heap s' a) \<le> gScore (heap s a)"
    proof (cases "a = nb")
      case True
      then show ?thesis using imp by (simp add: s' relaxed_scores improves_def)
    qed (simp add: other)
  qed
  have st_vis: "isVisited (heap s ?st)" using goal_okD(4)[OF opt_invD(9)[OF inv] rf(5)] .
  have fn_unv: "\<not> isVisited (heap s ?fn)"
  proof
    assume "isVisited (heap s ?fn)"
    from goal_okD(2)[OF opt_invD(9)[OF inv] this] r show False by (auto simp: resumes_def)
  qed

  have sc: "scores_ok h s'"
    unfolding scores_ok_def fr
  proof (intro ballI impI)
    fix a assume a: "a \<in> cells ?g" "gScore (heap s' a) \<noteq> \<infinity>"
    show "hScore (heap s' a) = enat (md h a ?fn)
          \<and> fScore (heap s' a) = gScore (heap s' a) + enat (md h a ?fn)
          \<and> enat (md h ?st a) \<le> gScore (heap s' a)"
    proof (cases "a = nb")
      case True
      have hm: "heuristic (heap s nb) (heap s ?fn) = enat (md h nb ?fn)"
        using heuristic_md[of "heap s" nb ?fn] md_same_layout[OF sl] by simp
      have "md h ?st c \<le> k" using score_lower_bound(3)[OF inv rf(1) k] .
      moreover have "md h ?st nb \<le> md h ?st c + md h c nb" by (rule md_triangle)
      ultimately have "md h ?st nb \<le> k + 1" using md_adjacent[OF nb(3)] by linarith
      then show ?thesis
        unfolding True by (simp add: s' relaxed_scores hm k one_enat_def)
    next
      case False
      then show ?thesis using scores_okD[OF opt_invD(5)[OF inv] a(1)] a(2) by (simp add: other)
    qed
  qed

  note fo = frontier_okD[OF opt_invD(6)[OF inv]]
  have fro: "frontier_ok h s'"
    unfolding frontier_ok_def fr
  proof (intro conjI ballI impI)
    fix a assume "a \<in> set (openSet s')"
    then have "a = nb \<or> a \<in> set (openSet s)" by (auto simp: s' pushed_set)
    then show "\<not> isVisited (heap s' a)" using nb(2) fo(1) vis by blast
  next
    fix a assume a: "a \<in> cells ?g" "gScore (heap s' a) \<noteq> \<infinity> \<and> \<not> isVisited (heap s' a)"
    show "a \<in> set (openSet s')"
    proof (cases "a = nb")
      case True
      then show ?thesis by (simp add: s' pushed_set)
    next
      case False
      then have "a \<in> set (openSet s)" using fo(2)[OF a(1)] a(2) by (simp add: other)
      then show ?thesis by (simp add: s' pushed_set)
    qed
  next
    fix a assume a: "a \<in> cells ?g" "isVisited (heap s' a)"
    then have v: "isVisited (heap s a)" using vis by simp
    then have "a \<noteq> nb" using nb(2) by auto
    then show "gScore (heap s' a) \<noteq> \<infinity>" "fScore (heap s' a) = enat (md h ?st ?fn)"
      using fo(3,4)[OF a(1) v] by (simp_all add: other)
  qed

  have ex: "expanded_ok h s'"
    unfolding expanded_ok_def fr
  proof (intro ballI impI)
    fix v m assume v: "v \<in> cells ?g" "isVisited (heap s' v)"
      and m: "m \<in> set (neighbors ?g (row (h v)) (col (h v)))"
    have vv: "isVisited (heap s v)" using v(2) vis by simp
    then have vnb: "v \<noteq> nb" using nb(2) by auto
    have gv: "gScore (heap s' v) = gScore (heap s v)" using vnb by (simp add: other)
    from expanded_okD[OF opt_invD(7)[OF inv] v(1) vv m]
    consider (a) "isVisited (heap s m)" | (b) "m \<in> pending s v"
      | (c) "gScore (heap s m) \<le> gScore (heap s v) + 1" by blast
    then show "isVisited (heap s' m) \<or> m \<in> pending s' v
               \<or> gScore (heap s' m) \<le> gScore (heap s' v) + 1"
    proof cases
      case a
      then show ?thesis using vis by simp
    next
      case c
      then have "gScore (heap s' m) \<le> gScore (heap s v) + 1" using g_le[of m] by (rule order_trans[rotated])
      then show ?thesis using gv by simp
    next
      case b
      have vc: "v = c" using pending_current[OF b r] .
      from resumes_neighbors[OF inv r m[unfolded vc] b[unfolded vc]]
      consider (vis) "isVisited (heap s m)" | (pre) "m \<in> set pre" | (nb) "m = nb" | (rest) "m \<in> set rest"
        using nbs by auto
      then show ?thesis
      proof cases
        case vis
        then show ?thesis using \<open>\<And>a. isVisited (heap s' a) = isVisited (heap s a)\<close> by simp
      next
        case pre
        then have "gScore (heap s m) \<le> gScore (heap s c) + 1" using \<open>\<forall>x\<in>set pre. \<not> improves s c x\<close> not_improves_le by blast
        then have "gScore (heap s' m) \<le> gScore (heap s c) + 1" using g_le[of m] by (rule order_trans[rotated])
        then show ?thesis using gv vc by simp
      next
        case nb
        then show ?thesis using g_nb gv vc k by (simp add: one_enat_def)
      next
        case rest
        then show ?thesis by (simp add: pending_def s' vc)
      qed
    qed
  qed

  note co = chain_okD[OF opt_invD(8)[OF inv]]
  have stnb: "?st \<noteq> nb" using st_vis nb(2) by auto
  have ch: "chain_ok s'"
    unfolding chain_ok_def fr
  proof (intro conjI ballI impI)
    show "previousNode (heap s' ?st) = None" "gScore (heap s' ?st) = 0"
      using co(1,2) stnb by (simp_all add: other)
  next
    fix a assume a: "a \<in> cells ?g" "a \<noteq> ?st \<and> gScore (heap s' a) \<noteq> \<infinity>"
    show "\<exists>p\<in>cells ?g. previousNode (heap s' a) = Some p \<and> isVisited (heap s' p)
            \<and> gScore (heap s' a) = gScore (heap s' p) + 1"
    proof (cases "a = nb")
      case True
      have "previousNode (heap s' nb) = Some c" by (simp add: s' relaxed_scores)
      moreover have "gScore (heap s' nb) = gScore (heap s' c) + 1"
        using nbc by (simp add: s' relaxed_scores)
      ultimately show ?thesis using rf(1) cv(1) vis True by blast
    next
      case False
      then have "gScore (heap s a) \<noteq> \<infinity>" using a(2) by (simp add: other)
      from co(3)[OF a(1) _ this] a(2) obtain p where p: "p \<in> cells ?g"
        "previousNode (heap s a) = Some p" "isVisited (heap s p)"
        "gScore (heap s a) = gScore (heap s p) + 1" by blast
      have "p \<noteq> nb" using p(3) nb(2) by auto
      then show ?thesis using p False vis by (auto simp: other)
    qed
  qed

  have go: "goal_ok s'"
    unfolding goal_ok_def
    using fn_unv st_vis vis by (simp add: s')

  show ?thesis
    unfolding opt_inv_def
    using ti ri sc fro ex ch go opt_invD(3,4)[OF inv] by (simp add: fr)
qed

section \<open>Visiting on an open grid\<close>

lemma sort_key_of_fScore: "sort_key_of h c \<le> sort_key_of h m \<Longrightarrow> fScore (h c) \<le> fScore (h m)"
  by (auto simp: sort_key_of_le)

lemma open_no_wall:
  assumes "opt_inv h s" "m \<in> set (openSet s)"
  shows "\<not> isWall (heap s m)"
proof -
  have "m \<in> cells (grid s)" using opt_inv_basics(5)[OF assms(1)] assms(2) by blast
  then have "\<not> isWall (h m)" using opt_invD(4)[OF assms(1)] by (simp add: open_grid_def)
  then show ?thesis using opt_inv_basics(1)[OF assms(1)] by (simp add: same_layout_def)
qed

text \<open>Taking the minimum from the open set and visiting it keeps the invariant: the
  node taken has the distance from start to goal as its fScore.\<close>

lemma opt_visit:
  assumes inv: "opt_inv h s" and lp: "loops s" and wv: "wl_visit s ev s'"
    and ti: "term_inv s'" and ri: "reach_inv h s'"
  shows "opt_inv h s'"
proof -
  let ?st = "startNode s" and ?fn = "finishNode s" and ?g = "grid s"
  from wv obtain c os where
    s': "s' = s\<lparr>openSet := os, heap := (heap s)(c := (heap s c)\<lparr>isVisited := True\<rparr>),
            pc := YieldVisited c\<rparr>"
    and c: "c \<in> set (openSet s)"
    and os: "set os \<subseteq> set (openSet s)"
    and keep: "\<forall>b\<in>set (openSet s). b \<noteq> c \<and> \<not> isWall (heap s b) \<longrightarrow> b \<in> set os"
    and least: "\<forall>b\<in>set (openSet s). \<not> isWall (heap s b) \<longrightarrow>
             sort_key_of (heap s) c \<le> sort_key_of (heap s) b"
    unfolding wl_visit_def by blast
  have cc: "c \<in> cells ?g" using opt_inv_basics(5)[OF inv] c by blast
  have fr: "grid s' = ?g" "startNode s' = ?st" "finishNode s' = ?fn" by (simp_all add: s')
  have sc_eq: "\<And>a. gScore (heap s' a) = gScore (heap s a)" "\<And>a. hScore (heap s' a) = hScore (heap s a)"
    "\<And>a. fScore (heap s' a) = fScore (heap s a)"
    "\<And>a. previousNode (heap s' a) = previousNode (heap s a)"
    by (simp_all add: s')
  have vis: "\<And>a. isVisited (heap s' a) \<longleftrightarrow> a = c \<or> isVisited (heap s a)" by (simp add: s')
  have fn_unv: "\<not> isVisited (heap s ?fn)" using loops_goal_unvisited[OF inv lp] .

  have "gScore (heap s c) \<noteq> \<infinity>"
    using opt_inv_basics(4)[OF inv] c by (simp add: run_inv_def list_all_iff)
  then obtain k where k: "gScore (heap s c) = enat k" by auto
  note sb = score_lower_bound[OF inv cc k]
  from frontier_exists[OF inv lp] obtain m where
    m: "m \<in> set (openSet s)" "fScore (heap s m) = enat (md h ?st ?fn)" by blast
  have "sort_key_of (heap s) c \<le> sort_key_of (heap s) m"
    using least m(1) open_no_wall[OF inv m(1)] by blast
  from sort_key_of_fScore[OF this] have "enat (k + md h c ?fn) \<le> enat (md h ?st ?fn)"
    using sb(1) m(2) by simp
  then have fc: "fScore (heap s c) = enat (md h ?st ?fn)" using sb(1,2) by simp

  have sc: "scores_ok h s'"
    using opt_invD(5)[OF inv] unfolding scores_ok_def fr sc_eq .

  note fo = frontier_okD[OF opt_invD(6)[OF inv]]
  have fro: "frontier_ok h s'"
    unfolding frontier_ok_def fr sc_eq
  proof (intro conjI ballI impI)
    fix a assume "a \<in> set (openSet s')"
    then show "\<not> isVisited (heap s' a)" using ti by (simp add: term_inv_def s')
  next
    fix a assume a: "a \<in> cells ?g" "gScore (heap s a) \<noteq> \<infinity> \<and> \<not> isVisited (heap s' a)"
    then have "a \<noteq> c" "\<not> isVisited (heap s a)" using vis by auto
    then have "a \<in> set (openSet s)" using fo(2)[OF a(1)] a(2) by blast
    then have "a \<in> set os" using keep \<open>a \<noteq> c\<close> open_no_wall[OF inv] by blast
    then show "a \<in> set (openSet s')" by (simp add: s')
  next
    fix a assume a: "a \<in> cells ?g" "isVisited (heap s' a)"
    show "gScore (heap s a) \<noteq> \<infinity>"
      using a vis[of a] fo(3)[OF a(1)] k by auto
    show "fScore (heap s a) = enat (md h ?st ?fn)"
      using a vis[of a] fo(4)[OF a(1)] fc by auto
  qed

  have ex: "expanded_ok h s'"
    unfolding expanded_ok_def fr sc_eq
  proof (intro ballI impI)
    fix v m assume v: "v \<in> cells ?g" "isVisited (heap s' v)"
      and m: "m \<in> set (neighbors ?g (row (h v)) (col (h v)))"
    show "isVisited (heap s' m) \<or> m \<in> pending s' v
          \<or> gScore (heap s m) \<le> gScore (heap s v) + 1"
    proof (cases "v = c")
      case True
      then show ?thesis by (simp add: pending_def s')
    next
      case False
      then have "isVisited (heap s v)" using v(2) vis by simp
      from loops_expanded[OF inv lp v(1) this m] show ?thesis using vis by blast
    qed
  qed

  note co = chain_okD[OF opt_invD(8)[OF inv]]
  have ch: "chain_ok s'"
    unfolding chain_ok_def fr sc_eq
  proof (intro conjI ballI impI)
    show "previousNode (heap s ?st) = None" "gScore (heap s ?st) = 0" using co(1,2) .
  next
    fix a assume a: "a \<in> cells ?g" "a \<noteq> ?st \<and> gScore (heap s a) \<noteq> \<infinity>"
    from co(3)[OF a(1)] a(2) obtain p where "p \<in> cells ?g"
      "previousNode (heap s a) = Some p" "isVisited (heap s p)"
      "gScore (heap s a) = gScore (heap s p) + 1" by blast
    then show "\<exists>p\<in>cells ?g. previousNode (heap s a) = Some p \<and> isVisited (heap s' p)
            \<and> gScore (heap s a) = gScore (heap s p) + 1"
      using vis by blast
  qed

  have st_vis: "isVisited (heap s' ?st)"
  proof (cases "pc s = YieldStart")
    case True
    from goal_okD(3)[OF opt_invD(9)[OF inv] this] c have "c = ?st" by simp
    then show ?thesis using vis by simp
  next
    case False
    from goal_okD(4)[OF opt_invD(9)[OF inv] this] show ?thesis using vis by simp
  qed
  have go: "goal_ok s'"
    unfolding goal_ok_def
    using fn_unv st_vis vis[of ?fn] by (auto simp: s')

  show ?thesis
    unfolding opt_inv_def
    using ti ri sc fro ex ch go opt_invD(3,4)[OF inv] by (simp add: fr)
qed

lemma opt_inv_step:
  assumes "opt_inv h s" "gen_next s = Inr (Some ev, s')"
  shows "opt_inv h s'"
proof -
  have ti: "term_inv s'" using term_step[OF opt_invD(1)[OF assms(1)] assms(2)] by simp
  have ri: "reach_inv h s'" using reach_inv_step[OF opt_invD(2)[OF assms(1)] assms(2)] by simp
  from assms(2) show ?thesis
  proof (cases rule: step_cases)
    case init
    then show ?thesis using opt_inv_basics(4)[OF assms(1)] by (simp add: run_inv_def pc_ok_def)
  next
    case (relax c nbs pre nb rest)
    from opt_relax[OF assms(1) relax(1,2,3,4,6) ti ri] show ?thesis .
  next
    case loop
    from while_loop_char[OF loop(2)] show ?thesis
    proof (elim disjE)
      assume "wl_visit s (Some ev) s'"
      from opt_visit[OF assms(1) loop(1) this ti ri] show ?thesis .
    qed (simp_all add: wl_empty_def wl_inf_def)
  qed simp_all
qed

text \<open>On an open grid the run can only end at the goal.\<close>

lemma opt_inv_done:
  assumes "opt_inv h s" "gen_next s = Inr (None, s')"
  shows "pc s = YieldVisited (finishNode s) \<and> s' = s\<lparr>pc := Returned GoalReached\<rparr>"
  using assms(2)
proof (cases rule: step_cases)
  case init
  then show ?thesis using opt_inv_basics(4)[OF assms(1)] by (simp add: run_inv_def pc_ok_def)
next
  case goal
  then show ?thesis by simp
next
  case (returned e)
  then show ?thesis using goal_okD(1)[OF opt_invD(9)[OF assms(1)]] by simp
next
  case (relax c nbs pre nb rest)
  then show ?thesis by simp
next
  case loop
  from frontier_exists[OF assms(1) loop(1)] obtain m where m: "m \<in> set (openSet s)" by blast
  note nw = open_no_wall[OF assms(1) m]
  from while_loop_char[OF loop(2)] show ?thesis
  proof (elim disjE)
    assume "wl_empty s None s'"
    then show ?thesis using m nw by (simp add: wl_empty_def)
  next
    assume "wl_inf s None s'"
    then show ?thesis using opt_inv_basics(4)[OF assms(1)]
      by (auto simp: wl_inf_def run_inv_def list_all_iff)
  next
    assume "wl_visit s None s'"
    then show ?thesis by (simp add: wl_visit_def)
  qed
qed

section \<open>Success on an open grid\<close>

lemma opt_inv_init:
  assumes wf: "wf_grid h g" and st: "st \<in> cells g" and fn: "fn \<in> cells g"
    and og: "open_grid h g" and rs: "reset_state h g"
  shows "\<exists>s1. gen_next (astarGenerator g st fn h) = Inr (Some \<lparr>nodes = [st], type = opened\<rparr>, s1)
           \<and> opt_inv h s1"
proof -
  let ?s0 = "astarGenerator g st fn h"
  from first_step_term_inv[OF wf st, of fn] obtain s1 where
    n: "gen_next ?s0 = Inr (Some \<lparr>nodes = [st], type = opened\<rparr>, s1)"
    and ti: "term_inv s1" and pc1: "pc s1 = YieldStart" by blast
  have p0: "pc ?s0 = NotStarted" by (simp add: astarGenerator_def)
  note f = gen_next_NotStarted[OF p0, THEN iffD1, OF n]
  have fr: "grid s1 = g" "startNode s1 = st" "finishNode s1 = fn" "openSet s1 = [st]"
    using f by (simp_all add: astarGenerator_def)
  have hst: "gScore (heap s1 st) = 0" "previousNode (heap s1 st) = previousNode (h st)"
    "hScore (heap s1 st) = enat (md h st fn)" "fScore (heap s1 st) = 0 + enat (md h st fn)"
    "isVisited (heap s1 st) = isVisited (h st)"
    using f by (simp_all add: astarGenerator_def heuristic_md)
  have oth: "\<And>a. a \<noteq> st \<Longrightarrow> heap s1 a = h a" using f by (simp add: astarGenerator_def)
  have r0: "reach_inv h ?s0"
    using wf st by (simp add: reach_inv_def same_layout_def astarGenerator_def reach_pc_def)
  have ri: "reach_inv h s1" using reach_inv_step[OF r0 n] by simp
  have rsD: "\<And>a. a \<in> cells g \<Longrightarrow> \<not> isVisited (h a) \<and> gScore (h a) = \<infinity> \<and> previousNode (h a) = None"
    using rs unfolding reset_state_def by blast
  have unv: "\<And>a. a \<in> cells g \<Longrightarrow> \<not> isVisited (heap s1 a)"
  proof -
    fix a assume "a \<in> cells g"
    then show "\<not> isVisited (heap s1 a)" using rsD[of a] hst(5) oth[of a] by (cases "a = st") auto
  qed
  have ginf: "\<And>a. a \<in> cells g \<Longrightarrow> a \<noteq> st \<Longrightarrow> gScore (heap s1 a) = \<infinity>"
    using rsD oth by simp
  have fin_st: "a = st" if "a \<in> cells g" "gScore (heap s1 a) \<noteq> \<infinity>" for a
  proof (rule ccontr)
    assume "a \<noteq> st"
    from ginf[OF that(1) this] that(2) show False by simp
  qed
  have sc: "scores_ok h s1"
    unfolding scores_ok_def fr
  proof (intro ballI impI)
    fix a assume a: "a \<in> cells g" "gScore (heap s1 a) \<noteq> \<infinity>"
    have "a = st" using fin_st[OF a] .
    then show "hScore (heap s1 a) = enat (md h a fn)
        \<and> fScore (heap s1 a) = gScore (heap s1 a) + enat (md h a fn)
        \<and> enat (md h st a) \<le> gScore (heap s1 a)"
      using hst by (simp add: zero_enat_def)
  qed
  have fro: "frontier_ok h s1"
    unfolding frontier_ok_def fr
  proof (intro conjI ballI impI)
    fix a assume "a \<in> set [st]"
    then show "\<not> isVisited (heap s1 a)" using unv[OF st] by simp
  next
    fix a assume "a \<in> cells g" "gScore (heap s1 a) \<noteq> \<infinity> \<and> \<not> isVisited (heap s1 a)"
    then show "a \<in> set [st]" using fin_st by simp
  next
    fix a assume "a \<in> cells g" "isVisited (heap s1 a)"
    then show "gScore (heap s1 a) \<noteq> \<infinity>" "fScore (heap s1 a) = enat (md h st fn)"
      using unv by blast+
  qed
  have ex: "expanded_ok h s1"
    unfolding expanded_ok_def fr using unv by blast
  have ch: "chain_ok s1"
    unfolding chain_ok_def fr
  proof (intro conjI ballI impI)
    show "previousNode (heap s1 st) = None" "gScore (heap s1 st) = 0"
      using hst(1,2) rsD[OF st] by simp_all
  next
    fix a assume "a \<in> cells g" "a \<noteq> st \<and> gScore (heap s1 a) \<noteq> \<infinity>"
    then have False using fin_st by blast
    then show "\<exists>p\<in>cells g. previousNode (heap s1 a) = Some p \<and> isVisited (heap s1 p)
            \<and> gScore (heap s1 a) = gScore (heap s1 p) + 1" ..
  qed
  have go: "goal_ok s1"
    unfolding goal_ok_def fr using pc1 unv[OF fn] by simp
  have "opt_inv h s1"
    unfolding opt_inv_def using ti ri sc fro ex ch go fn og by (simp add: fr)
  with n show ?thesis by blast
qed

lemma opt_drive:
  assumes "opt_inv h s" "drive n s = Inr (evs, s')" "pc s' = Returned e"
  shows "\<exists>s2. opt_inv h s2 \<and> pc s2 = YieldVisited (finishNode s2) \<and> grid s2 = grid s
           \<and> startNode s2 = startNode s \<and> finishNode s2 = finishNode s
           \<and> s' = s2\<lparr>pc := Returned GoalReached\<rparr>"
  using assms
proof (induction n arbitrary: s evs)
  case 0
  then show ?case using goal_okD(1)[OF opt_invD(9)[OF "0.prems"(1)], of e] by simp
next
  case (Suc n)
  from gen_next_total[OF opt_invD(1)[OF Suc.prems(1)]] obtain ev s1 where
    n: "gen_next s = Inr (ev, s1)" by blast
  show ?case
  proof (cases ev)
    case None
    then have "s' = s1" using Suc.prems(2) n by simp
    with opt_inv_done[OF Suc.prems(1) n[unfolded None]] Suc.prems(1) show ?thesis by blast
  next
    case (Some x)
    then obtain evs' where d: "drive n s1 = Inr (evs', s')"
      using Suc.prems(2) n by (auto simp: bind_err_def split: sum.splits)
    have fr: "grid s1 = grid s" "startNode s1 = startNode s" "finishNode s1 = finishNode s"
      using step_frame[OF n, of 0] by simp_all
    from Suc.IH[OF opt_inv_step[OF Suc.prems(1) n[unfolded Some]] d Suc.prems(3)]
    show ?thesis unfolding fr .
  qed
qed

text \<open>Following the predecessor links from a node whose gScore is \<open>k\<close> ends at the start
  node after \<open>k\<close> links.\<close>

lemma path_loop_chain:
  assumes "chain_ok s"
  shows "a \<in> cells (grid s) \<Longrightarrow> gScore (heap s a) = enat k \<Longrightarrow>
         \<exists>p. path_loop (heap s) (Some a) acc = Some (p @ acc) \<and> length p = k + 1
              \<and> hd p = startNode s \<and> last p = a"
proof (induction k arbitrary: a acc)
  case 0
  have "a = startNode s"
  proof (rule ccontr)
    assume "a \<noteq> startNode s"
    from chain_okD(3)[OF assms "0.prems"(1) this] "0.prems"(2)
    obtain p where "gScore (heap s a) = gScore (heap s p) + 1" by auto
    then show False using "0.prems"(2) by (cases "gScore (heap s p)") (auto simp: one_enat_def zero_enat_def)
  qed
  then have "path_loop (heap s) (Some a) acc = Some ([a] @ acc)"
    using chain_okD(1)[OF assms] by (simp add: path_loop.simps)
  then show ?case using \<open>a = startNode s\<close> by fastforce
next
  case (Suc k)
  have ne: "a \<noteq> startNode s"
    using chain_okD(2)[OF assms] Suc.prems(2) by (auto simp: zero_enat_def)
  from chain_okD(3)[OF assms Suc.prems(1) ne] Suc.prems(2)
  obtain p where p: "p \<in> cells (grid s)" "previousNode (heap s a) = Some p"
    "gScore (heap s a) = gScore (heap s p) + 1" by auto
  have gp: "gScore (heap s p) = enat k"
    using p(3) Suc.prems(2) by (cases "gScore (heap s p)") (auto simp: one_enat_def)
  from Suc.IH[OF p(1) gp, of "a # acc"] obtain q where
    q: "path_loop (heap s) (Some p) (a # acc) = Some (q @ a # acc)" "length q = k + 1"
    "hd q = startNode s" by blast
  have "path_loop (heap s) (Some a) acc = path_loop (heap s) (Some p) (a # acc)"
    using p(2) by (subst path_loop.simps) simp
  then have "path_loop (heap s) (Some a) acc = Some ((q @ [a]) @ acc)" using q(1) by simp
  moreover have "length (q @ [a]) = Suc k + 1" using q(2) by simp
  moreover have "hd (q @ [a]) = startNode s" using q(2,3) by (cases q) auto
  moreover have "last (q @ [a]) = a" by simp
  ultimately show ?case by blast
qed

lemma open_grid_run:
  assumes wf: "wf_grid h g" and st: "st \<in> cells g" and fn: "fn \<in> cells g"
    and og: "open_grid h g" and rs: "reset_state h g"
  shows "\<exists>n evs s' p. drive n (astarGenerator g st fn h) = Inr (evs, s')
           \<and> pc s' = Returned GoalReached
           \<and> evs \<noteq> [] \<and> last evs = \<lparr>nodes = [fn], type = visited\<rparr>
           \<and> getNodesInShortestPathOrder (heap s') fn = Some p
           \<and> length p = md h st fn + 1 \<and> hd p = st \<and> last p = fn
           \<and> gScore (heap s' fn) = enat (md h st fn)"
proof -
  let ?s0 = "astarGenerator g st fn h"
  from opt_inv_init[OF assms] obtain s1 where
    n: "gen_next ?s0 = Inr (Some \<lparr>nodes = [st], type = opened\<rparr>, s1)" and oi: "opt_inv h s1" by blast
  have fr1: "grid s1 = g" "startNode s1 = st" "finishNode s1 = fn"
    using step_frame[OF n, of 0] by (simp_all add: astarGenerator_def)
  from term_drive[OF opt_invD(1)[OF oi]] obtain k evs s' e where
    d: "drive k s1 = Inr (evs, s')" and e: "pc s' = Returned e" by blast
  from opt_drive[OF oi d e] obtain s2 where s2: "opt_inv h s2" "pc s2 = YieldVisited (finishNode s2)"
    "grid s2 = g" "startNode s2 = st" "finishNode s2 = fn" "s' = s2\<lparr>pc := Returned GoalReached\<rparr>"
    unfolding fr1 by blast
  have hp: "heap s' = heap s2" and pg: "pc s' = Returned GoalReached" using s2(6) by simp_all
  have d0: "drive (Suc k) ?s0 = Inr (\<lparr>nodes = [st], type = opened\<rparr> # evs, s')"
    using n d by (simp add: bind_err_def)
  from goal_reached_last[OF d0 pg]
  have lst: "last (\<lparr>nodes = [st], type = opened\<rparr> # evs) = \<lparr>nodes = [fn], type = visited\<rparr>"
    by (simp add: astarGenerator_def)
  have fv: "isVisited (heap s2 fn)"
    using opt_inv_basics(4)[OF s2(1)] s2(2,5) by (simp add: run_inv_def pc_ok_def)
  from visited_scores[OF s2(1) _ this] fn s2(3,4,5)
  have g: "gScore (heap s2 fn) = enat (md h st fn)" by auto
  from path_loop_chain[OF opt_invD(8)[OF s2(1)] _ g, of "[]"] fn s2(3,4)
  obtain p where "path_loop (heap s2) (Some fn) [] = Some p" "length p = md h st fn + 1"
    "hd p = st" "last p = fn" by auto
  then have "drive (Suc k) ?s0 = Inr (\<lparr>nodes = [st], type = opened\<rparr> # evs, s')
      \<and> pc s' = Returned GoalReached
      \<and> \<lparr>nodes = [st], type = opened\<rparr> # evs \<noteq> []
      \<and> last (\<lparr>nodes = [st], type = opened\<rparr> # evs) = \<lparr>nodes = [fn], type = visited\<rparr>
      \<and> getNodesInShortestPathOrder (heap s') fn = Some p
      \<and> length p = md h st fn + 1 \<and> hd p = st \<and> last p = fn
      \<and> gScore (heap s' fn) = enat (md h st fn)"
    using d0 pg lst g by (simp add: getNodesInShortestPathOrder_def hp)
  then show ?thesis by blast
qed

text \<open>Claim C3. On a well-formed grid without walls whose search state has been reset, the
  run from any start cell to any goal cell ends in success, its last event being the
  VISITED event of the goal; the path reconstructor then returns a path from the start to
  the goal whose number of nodes is their Manhattan distance plus one, and the gScore of
  the goal (the cost of the path) is that distance.\<close>

theorem open_grid_shortest_path:
  assumes "wf_grid h g" "st \<in> cells g" "fn \<in> cells g" "open_grid h g" "reset_state h g"
  shows "\<exists>n evs s' p. drive n (astarGenerator g st fn h) = Inr (evs, s')
           \<and> pc s' = Returned GoalReached
           \<and> evs \<noteq> [] \<and> last evs = \<lparr>nodes = [fn], type = visited\<rparr>
           \<and> getNodesInShortestPathOrder (heap s') fn = Some p
           \<and> length p = md h st fn + 1 \<and> hd p = st \<and> last p = fn
           \<and> gScore (heap s' fn) = enat (md h st fn)"
  using assms by (rule open_grid_run)

theorem open_grid_shortest_path_witness:
  "wf_grid (cleanHeap 5 []) (grid_cells 5 5) \<and> 0 \<in> cells (grid_cells 5 5)
   \<and> 24 \<in> cells (grid_cells 5 5) \<and> open_grid (cleanHeap 5 []) (grid_cells 5 5)
   \<and> reset_state (cleanHeap 5 []) (grid_cells 5 5)
   \<and> (\<exists>n evs s' p. drive n (astarGenerator (grid_cells 5 5) 0 24 (cleanHeap 5 [])) = Inr (evs, s')
           \<and> pc s' = Returned GoalReached
           \<and> last evs = \<lparr>nodes = [24], type = visited\<rparr>
           \<and> getNodesInShortestPathOrder (heap s') 24 = Some p
           \<and> length p = 9 \<and> gScore (heap s' 24) = 8)"
proof -
  have a: "wf_grid (cleanHeap 5 []) (grid_cells 5 5)" by code_simp
  have b: "0 \<in> cells (grid_cells 5 5)" by code_simp
  have c: "24 \<in> cells (grid_cells 5 5)" by code_simp
  have d: "open_grid (cleanHeap 5 []) (grid_cells 5 5)" by code_simp
  have e: "reset_state (cleanHeap 5 []) (grid_cells 5 5)" by code_simp
  have m: "md (cleanHeap 5 []) 0 24 = 8" by code_simp
  have n: "enat 8 = 8" by (simp add: numeral_eq_enat)
  from open_grid_shortest_path[OF a b c d e] obtain k evs s' p where
    "drive k (astarGenerator (grid_cells 5 5) 0 24 (cleanHeap 5 [])) = Inr (evs, s')"
    "pc s' = Returned GoalReached" "last evs = \<lparr>nodes = [24], type = visited\<rparr>"
    "getNodesInShortestPathOrder (heap s') 24 = Some p"
    "length p = md (cleanHeap 5 []) 0 24 + 1"
    "gScore (heap s' 24) = enat (md (cleanHeap 5 []) 0 24)" by blast
  then have "drive k (astarGenerator (grid_cells 5 5) 0 24 (cleanHeap 5 [])) = Inr (evs, s')
      \<and> pc s' = Returned GoalReached \<and> last evs = \<lparr>nodes = [24], type = visited\<rparr>
      \<and> getNodesInShortestPathOrder (heap s') 24 = Some p
      \<and> length p = 9 \<and> gScore (heap s' 24) = 8"
    unfolding m using n by simp
  then show ?thesis using a b c d e by blast
qed

end
